theory Spec2Isabelle
  imports Main "HOL-Library.Word" "HOL-Library.Sublist"
begin

unbundle bit_operations_syntax

section \<open>Option parsing of the launcher (misc/options.c)\<close>

text \<open>
  C strings are modelled as \<open>string\<close> (the characters before the terminating NUL,
  so a token never holds the character 0), a NULL-terminated array of strings as a
  list (the sentinel is the position \<open>length argv\<close>), a pointer into a string as
  an offset. A function that writes to its array or to a global returns the new
  array and the new state. Process termination (\<open>ExitProcess\<close>) is the left
  injection of a sum, carrying the exit code and the state at that moment.
  Allocation (\<open>malloc\<close>, \<open>realloc\<close>, \<open>strdup\<close>) is taken to succeed, so
  \<open>out_of_memory\<close> has no branch here.
\<close>

subsection \<open>C library functions used by the file\<close>

fun strchr :: "string \<Rightarrow> char \<Rightarrow> nat option" where
  "strchr [] c = None"
| "strchr (x # xs) c = (if x = c then Some 0 else map_option Suc (strchr xs c))"

text \<open>\<open>tolower\<close> and \<open>toupper\<close> on the ASCII letters (the C locale).\<close>

definition tolower :: "char \<Rightarrow> char" where
  "tolower c =
     (case map_of (zip ''ABCDEFGHIJKLMNOPQRSTUVWXYZ'' ''abcdefghijklmnopqrstuvwxyz'') c of
        Some l \<Rightarrow> l
      | None \<Rightarrow> c)"

definition toupper :: "char \<Rightarrow> char" where
  "toupper c =
     (case map_of (zip ''abcdefghijklmnopqrstuvwxyz'' ''ABCDEFGHIJKLMNOPQRSTUVWXYZ'') c of
        Some u \<Rightarrow> u
      | None \<Rightarrow> c)"

definition strupr :: "string \<Rightarrow> string" where
  "strupr s = map toupper s"

text \<open>\<open>strncmp (a, b, n) == 0\<close> and \<open>strncasecmp (a, b, n) == 0\<close>.\<close>

definition strncmp_eq :: "string \<Rightarrow> string \<Rightarrow> nat \<Rightarrow> bool" where
  "strncmp_eq a b n = (take n a = take n b)"

definition strncasecmp_eq :: "string \<Rightarrow> string \<Rightarrow> nat \<Rightarrow> bool" where
  "strncasecmp_eq a b n = (map tolower (take n a) = map tolower (take n b))"

text \<open>
  One call of \<open>strtok\<close> on the rest of the buffer: leading delimiters are skipped, the
  token runs to the next delimiter, which is overwritten, and the saved pointer is
  left behind it. The result is the token and the buffer the next call sees.
\<close>

definition strtok :: "string \<Rightarrow> string \<Rightarrow> (string \<times> string) option" where
  "strtok buf delim =
     (let s = dropWhile (\<lambda>c. c \<in> set delim) buf
      in if s = [] then None
         else Some (takeWhile (\<lambda>c. c \<notin> set delim) s,
                    drop 1 (dropWhile (\<lambda>c. c \<notin> set delim) s)))"

subsection \<open>Process state\<close>

datatype handler =
    do_debugmsg_fn | MODULE_AddLoadOrderOption | VERSION_ParseDosVersion
  | do_help_fn | do_managed_fn | do_version_fn | VERSION_ParseWinVersion

datatype message =
    Msg_debugmsg_syntax
  | Msg_unknown_option string
  | Msg_unknown_option_env string
  | Msg_usage
  | Msg_release_info

text \<open>
  The globals the file writes, and the observable effects in the order they happen:
  \<open>calls\<close> logs every \<open>opt->func (arg)\<close> of the scanner, \<open>dbg_options\<close> every
  \<open>wine_dbg_add_option (name, set, clear)\<close>, \<open>messages\<close> every block of
  \<open>MESSAGE\<close> output. A module list is a \<open>char **\<close>: \<open>None\<close> is the NULL pointer,
  and inside an array \<open>None\<close> is the NULL sentinel slot.
\<close>

record proc =
  managed :: bool
  inherit_str :: "string option"
  debug_relay_includelist :: "string option list option"
  debug_relay_excludelist :: "string option list option"
  debug_snoop_includelist :: "string option list option"
  debug_snoop_excludelist :: "string option list option"
  dbg_options :: "(string \<times> 8 word \<times> 8 word) list"
  calls :: "(handler \<times> string) list"
  messages :: "message list"
  env_WINEOPTIONS :: "string option"
  app_argv :: "string list"
  app_argc :: nat

definition proc0 :: proc where
  "proc0 = \<lparr> managed = False, inherit_str = None,
     debug_relay_includelist = None, debug_relay_excludelist = None,
     debug_snoop_includelist = None, debug_snoop_excludelist = None,
     dbg_options = [], calls = [], messages = [], env_WINEOPTIONS = None,
     app_argv = [], app_argc = 0 \<rparr>"

type_synonym 'a result = "(nat \<times> proc) + 'a"

definition MESSAGE :: "message \<Rightarrow> proc \<Rightarrow> proc" where
  "MESSAGE m st = st\<lparr>messages := messages st @ [m]\<rparr>"

definition wine_dbg_add_option :: "string \<Rightarrow> 8 word \<Rightarrow> 8 word \<Rightarrow> proc \<Rightarrow> proc" where
  "wine_dbg_add_option name set' clear' st =
     st\<lparr>dbg_options := dbg_options st @ [(name, set', clear')]\<rparr>"

subsection \<open>\<open>do_debugmsg\<close>\<close>

definition debug_class_names :: "string list" where
  "debug_class_names = [''fixme'', ''err'', ''warn'', ''trace'']"

text \<open>The label \<open>error\<close>: the syntax text and the class names, then \<open>ExitProcess (1)\<close>.\<close>

definition debugmsg_error :: "proc \<Rightarrow> nat \<times> proc" where
  "debugmsg_error st = (1, MESSAGE Msg_debugmsg_syntax st)"

text \<open>
  Lines 111 to 113: \<open>p = strchr (opt, '+'); if (!p) p = strchr (opt, '-');\<close> and
  the test \<open>!p || !p[1]\<close>. The result is the offset of \<open>p\<close> in \<open>opt\<close>.
\<close>

definition find_sign :: "string \<Rightarrow> nat option" where
  "find_sign opt =
     (case strchr opt (CHR ''+'') of
        Some k \<Rightarrow> Some k
      | None \<Rightarrow> strchr opt (CHR ''-''))"

definition split_directive :: "string \<Rightarrow> (string \<times> string) option" where
  "split_directive opt =
     (case find_sign opt of
        None \<Rightarrow> None
      | Some k \<Rightarrow> if drop (k + 1) opt = [] then None else Some (take k opt, drop k opt))"

text \<open>
  The loop over \<open>debug_class_names\<close>, from index \<open>i\<close>: the index of the first name of
  the same length and content as the text before the sign, \<open>None\<close> when the loop ends
  with \<open>i == __DBCL_COUNT\<close> (the number of names of the array).
\<close>

primrec class_loop :: "string \<Rightarrow> nat \<Rightarrow> string list \<Rightarrow> nat option" where
  "class_loop nm i [] = None"
| "class_loop nm i (n # ns) =
     (if length n \<noteq> length nm then class_loop nm (Suc i) ns
      else if take (length n) nm = n then Some i
      else class_loop nm (Suc i) ns)"

text \<open>
  The module names of a \<open>relay=\<close> or \<open>snoop=\<close> directive. \<open>p\<close> is the directive from
  its sign, \<open>s\<close> the offset of the current component. The loop cuts a component at
  each \<open>:\<close>; the last component ends where \<open>p[l]\<close> is overwritten by NUL.
\<close>

lemma strchr_less: "strchr xs c = Some k \<Longrightarrow> k < length xs"
  by (induction xs arbitrary: k) (auto split: if_splits)

function module_loop :: "string \<Rightarrow> nat \<Rightarrow> string option list \<times> nat" where
  "module_loop p s =
     (case strchr (drop s p) (CHR '':'') of
        None \<Rightarrow> ([], s)
      | Some k \<Rightarrow>
          (let (ms, s') = module_loop p (s + k + 1)
           in (Some (strupr (take k (drop s p))) # ms, s')))"
  by pat_completeness auto
termination
  by (relation "measure (\<lambda>(p, s). length p - s)") (auto dest: strchr_less)

declare module_loop.simps [simp del]

definition module_list :: "string \<Rightarrow> string option list" where
  "module_list p =
     (let l = (case strchr p (CHR '','') of Some k \<Rightarrow> k | None \<Rightarrow> length p);
          (ms, s) = module_loop p 7;
          last = (if s \<le> l then take (l - s) (drop s p) else drop s p)
      in ms @ [Some (strupr last), None])"

text \<open>
  The end of the loop body: \<open>p++\<close>, \<open>all\<close> becomes the empty string, and the
  directive goes to \<open>wine_dbg_add_option\<close>.
\<close>

definition forward_option :: "string \<Rightarrow> 8 word \<Rightarrow> 8 word \<Rightarrow> proc \<Rightarrow> proc" where
  "forward_option p set' clear' st =
     (let p1 = drop 1 p
      in wine_dbg_add_option (if p1 = ''all'' then '''' else p1) set' clear' st)"

text \<open>
  The assignment through \<open>output\<close>, which points to one of the four lists: chosen by
  the sign and by the test \<open>*(p+1) == 'r'\<close>.
\<close>

definition store_output :: "string \<Rightarrow> string option list \<Rightarrow> proc \<Rightarrow> proc" where
  "store_output p ms st =
     (if p ! 0 = CHR ''+'' then
        (if p ! 1 = CHR ''r'' then st\<lparr>debug_relay_includelist := Some ms\<rparr>
         else st\<lparr>debug_snoop_includelist := Some ms\<rparr>)
      else
        (if p ! 1 = CHR ''r'' then st\<lparr>debug_relay_excludelist := Some ms\<rparr>
         else st\<lparr>debug_snoop_excludelist := Some ms\<rparr>))"

text \<open>One iteration of the \<open>do\<close> loop, on the token \<open>opt\<close>.\<close>

definition do_directive :: "string \<Rightarrow> proc \<Rightarrow> proc result" where
  "do_directive opt st =
     (case split_directive opt of
        None \<Rightarrow> Inl (debugmsg_error st)
      | Some (cls, p) \<Rightarrow>
          if cls \<noteq> [] then
            (case class_loop cls 0 debug_class_names of
               None \<Rightarrow> Inl (debugmsg_error st)
             | Some i \<Rightarrow>
                 if p ! 0 = CHR ''+'' then Inr (forward_option p (0 OR push_bit i 1) 0 st)
                 else Inr (forward_option p 0 (0 OR push_bit i 1) st))
          else if strncasecmp_eq (drop 1 p) ''relay='' 6 \<or>
                  strncasecmp_eq (drop 1 p) ''snoop='' 6 then
            Inr (forward_option (take 6 p) (NOT 0) 0 (store_output p (module_list p) st))
          else if p ! 0 = CHR ''+'' then Inr (forward_option p (NOT 0) 0 st)
          else Inr (forward_option p 0 (NOT 0) st))"

text \<open>
  The \<open>do\<close> loop: \<open>tok\<close> is the result of the last \<open>strtok\<close>, the token and the
  buffer behind it.
\<close>

lemma strtok_shorter:
  assumes "strtok buf delim = Some (t, r)"
  shows "length r < length buf"
proof -
  define s where "s = dropWhile (\<lambda>c. c \<in> set delim) buf"
  define u where "u = dropWhile (\<lambda>c. c \<notin> set delim) s"
  have eq: "strtok buf delim =
      (if s = [] then None else Some (takeWhile (\<lambda>c. c \<notin> set delim) s, drop 1 u))"
    by (simp only: strtok_def Let_def s_def u_def)
  have ne: "s \<noteq> []" using assms eq by (cases "s = []") simp_all
  have r: "r = drop 1 u" using assms eq ne by simp
  have "u \<noteq> []" if "length u = length s"
    using that ne by auto
  have "length u \<le> length s" unfolding u_def by (rule length_dropWhile_le)
  then have "length r < length s" using r ne by (cases u) auto
  moreover have "length s \<le> length buf" unfolding s_def by (rule length_dropWhile_le)
  ultimately show ?thesis by linarith
qed

function debugmsg_loop :: "string \<Rightarrow> string \<Rightarrow> proc \<Rightarrow> proc result" where
  "debugmsg_loop opt buf st =
     (case do_directive opt st of
        Inl e \<Rightarrow> Inl e
      | Inr st' \<Rightarrow>
          (case strtok buf '','' of
             None \<Rightarrow> Inr st'
           | Some (opt', buf') \<Rightarrow> debugmsg_loop opt' buf' st'))"
  by pat_completeness auto
termination
  by (relation "measure (\<lambda>(opt, buf, st). length buf)") (auto dest: strtok_shorter)

declare debugmsg_loop.simps [simp del]

definition do_debugmsg :: "string \<Rightarrow> proc \<Rightarrow> proc result" where
  "do_debugmsg arg st =
     (case strtok arg '','' of
        None \<Rightarrow> Inl (debugmsg_error st)
      | Some (opt, buf) \<Rightarrow> debugmsg_loop opt buf st)"

subsection \<open>The option table and the handlers\<close>

text \<open>
  \<open>shortname\<close> is 0 where the option has no short name; \<open>func\<close> is the handler the
  descriptor points to. The terminator entry of the C table is the end of the list.
\<close>

record option_descr =
  longname :: string
  shortname :: char
  has_arg :: bool
  inherit :: bool
  func :: handler

definition option_table :: "option_descr list" where
  "option_table =
     [\<lparr>longname = ''debugmsg'', shortname = CHR 0x00, has_arg = True, inherit = True,
        func = do_debugmsg_fn\<rparr>,
      \<lparr>longname = ''dll'', shortname = CHR 0x00, has_arg = True, inherit = True,
        func = MODULE_AddLoadOrderOption\<rparr>,
      \<lparr>longname = ''dosver'', shortname = CHR 0x00, has_arg = True, inherit = True,
        func = VERSION_ParseDosVersion\<rparr>,
      \<lparr>longname = ''help'', shortname = CHR ''h'', has_arg = False, inherit = False,
        func = do_help_fn\<rparr>,
      \<lparr>longname = ''managed'', shortname = CHR 0x00, has_arg = False, inherit = False,
        func = do_managed_fn\<rparr>,
      \<lparr>longname = ''version'', shortname = CHR ''v'', has_arg = False, inherit = False,
        func = do_version_fn\<rparr>,
      \<lparr>longname = ''winver'', shortname = CHR 0x00, has_arg = True, inherit = True,
        func = VERSION_ParseWinVersion\<rparr>]"

definition OPTIONS_Usage :: "proc \<Rightarrow> nat \<times> proc" where
  "OPTIONS_Usage st = (0, MESSAGE Msg_usage st)"

definition do_help :: "string \<Rightarrow> proc \<Rightarrow> proc result" where
  "do_help arg st = Inl (OPTIONS_Usage st)"

definition do_version :: "string \<Rightarrow> proc \<Rightarrow> proc result" where
  "do_version arg st = Inl (0, MESSAGE Msg_release_info st)"

definition do_managed :: "string \<Rightarrow> proc \<Rightarrow> proc result" where
  "do_managed arg st = Inr (st\<lparr>managed := True\<rparr>)"

text \<open>
  \<open>MODULE_AddLoadOrderOption\<close>, \<open>VERSION_ParseDosVersion\<close> and
  \<open>VERSION_ParseWinVersion\<close> are defined in other files. They are a parameter of
  the model: \<open>ext h arg\<close> is \<open>Some code\<close> when the handler \<open>h\<close> ends the process
  with that code on \<open>arg\<close>, and \<open>None\<close> when it returns. Whether such a handler
  returns is taken to depend on its argument only; what it does besides is outside
  this file and is not modelled.
\<close>

type_synonym extern = "handler \<Rightarrow> string \<Rightarrow> nat option"

definition call_extern :: "extern \<Rightarrow> handler \<Rightarrow> string \<Rightarrow> proc \<Rightarrow> proc result" where
  "call_extern ext h arg st = (case ext h arg of Some code \<Rightarrow> Inl (code, st) | None \<Rightarrow> Inr st)"

text \<open>The call \<open>opt->func (arg)\<close>, logged in \<open>calls\<close> before the handler runs.\<close>

definition call_func :: "extern \<Rightarrow> handler \<Rightarrow> string \<Rightarrow> proc \<Rightarrow> proc result" where
  "call_func ext h arg st =
     (let st1 = st\<lparr>calls := calls st @ [(h, arg)]\<rparr>
      in case h of
           do_debugmsg_fn \<Rightarrow> do_debugmsg arg st1
         | do_help_fn \<Rightarrow> do_help arg st1
         | do_managed_fn \<Rightarrow> do_managed arg st1
         | do_version_fn \<Rightarrow> do_version arg st1
         | _ \<Rightarrow> call_extern ext h arg st1)"

subsection \<open>\<open>remove_options\<close>\<close>

text \<open>
  The second \<open>for\<close> loop, from index \<open>i\<close>: the tokens \<open>argv[pos]\<close> to
  \<open>argv[pos+count-1]\<close> are appended to the string, with a space between them.
\<close>

function join_loop :: "string list \<Rightarrow> nat \<Rightarrow> nat \<Rightarrow> nat \<Rightarrow> string \<Rightarrow> string" where
  "join_loop argv pos count i s =
     (if i < count
      then join_loop argv pos count (i + 1)
             (s @ argv ! (pos + i) @ (if i + 1 < count then '' '' else []))
      else s)"
  by pat_completeness auto
termination
  by (relation "measure (\<lambda>(argv, pos, count, i, s). count - i)") auto

declare join_loop.simps [simp del]

text \<open>
  \<open>while ((argv[pos] = argv[pos+count])) pos++;\<close> The loop stops when it has copied
  the sentinel to \<open>argv[pos]\<close>, which is then the end of the array. The callers
  keep \<open>pos + count \<le> length argv\<close>, so every read is inside the array.
\<close>

function shift_loop :: "string list \<Rightarrow> nat \<Rightarrow> nat \<Rightarrow> string list" where
  "shift_loop argv pos count =
     (if pos + count < length argv
      then shift_loop (argv[pos := argv ! (pos + count)]) (pos + 1) count
      else take pos argv)"
  by pat_completeness auto
termination
  by (relation "measure (\<lambda>(argv, pos, count). length argv - pos)") auto

declare shift_loop.simps [simp del]

definition remove_options ::
    "string list \<Rightarrow> nat \<Rightarrow> nat \<Rightarrow> bool \<Rightarrow> proc \<Rightarrow> string list \<times> proc" where
  "remove_options argv pos count inh st =
     (let st' =
        (if inh then
           st\<lparr>inherit_str :=
                Some (join_loop argv pos count 0
                        (case inherit_str st of Some s \<Rightarrow> s @ '' '' | None \<Rightarrow> []))\<rparr>
         else st)
      in (shift_loop argv pos count, st'))"

subsection \<open>\<open>parse_options\<close>\<close>

datatype scan = Skip | Separator | Found option_descr "string option"

primrec short_loop :: "char \<Rightarrow> option_descr list \<Rightarrow> option_descr option" where
  "short_loop c [] = None"
| "short_loop c (opt # opts) = (if shortname opt = c then Some opt else short_loop c opts)"

text \<open>
  The loop over the long names. \<open>p\<close> is the token after its one or two dashes,
  \<open>equal\<close> the offset of the first \<open>=\<close> in \<open>p\<close> if there is one. The result is
  the descriptor and \<open>equalarg\<close>.
\<close>

primrec long_loop ::
    "string \<Rightarrow> nat option \<Rightarrow> option_descr list \<Rightarrow> (option_descr \<times> string option) option" where
  "long_loop p equal [] = None"
| "long_loop p equal (opt # opts) =
     (if p = longname opt then Some (opt, None)
      else case equal of
             None \<Rightarrow> long_loop p equal opts
           | Some e \<Rightarrow>
               if has_arg opt \<and> length (longname opt) = e \<and> strncmp_eq p (longname opt) e
               then Some (opt, Some (drop (e + 1) p))
               else long_loop p equal opts)"

text \<open>
  The head of the loop body, for the token \<open>argv[i]\<close>: \<open>Skip\<close> is \<open>continue\<close>
  (not an option, or no descriptor found), \<open>Separator\<close> is the \<open>break\<close> at
  \<open>--\<close>.
\<close>

definition match_token :: "string \<Rightarrow> scan" where
  "match_token tok =
     (case tok of
        [] \<Rightarrow> Skip
      | c # p \<Rightarrow>
          if c \<noteq> CHR ''-'' then Skip
          else if length p = 1 then
            (if p ! 0 = CHR ''-'' then Separator
             else case short_loop (p ! 0) option_table of
                    None \<Rightarrow> Skip
                  | Some opt \<Rightarrow> Found opt None)
          else
            (let equal = strchr p (CHR ''='');
                 off = (if take 1 p = ''-'' then 1 else 0)
             in case long_loop (drop off p) (map_option (\<lambda>e. e - off) equal) option_table of
                  None \<Rightarrow> Skip
                | Some (opt, equalarg) \<Rightarrow> Found opt equalarg))"

text \<open>
  The three branches after a match: the handler is called with the value, and if it
  returns the tokens are removed.
\<close>

definition consume ::
    "extern \<Rightarrow> option_descr \<Rightarrow> string \<Rightarrow> nat \<Rightarrow> string list \<Rightarrow> nat \<Rightarrow> proc
      \<Rightarrow> (string list \<times> proc) result" where
  "consume ext opt v count argv i st =
     (case call_func ext (func opt) v st of
        Inl e \<Rightarrow> Inl e
      | Inr st' \<Rightarrow> Inr (remove_options argv i count (inherit opt) st'))"

definition handle_match ::
    "extern \<Rightarrow> option_descr \<Rightarrow> string option \<Rightarrow> string list \<Rightarrow> nat \<Rightarrow> proc
      \<Rightarrow> (string list \<times> proc) result" where
  "handle_match ext opt equalarg argv i st =
     (case equalarg of
        Some v \<Rightarrow> consume ext opt v 1 argv i st
      | None \<Rightarrow>
          if has_arg opt \<and> i + 1 < length argv
          then consume ext opt (argv ! (i + 1)) 2 argv i st
          else consume ext opt [] 1 argv i st)"

lemma length_shift_loop:
  "length (shift_loop argv pos count) = min pos (length argv) + (length argv - (pos + count))"
proof (induction argv pos count rule: shift_loop.induct)
  case (1 argv pos count)
  show ?case
  proof (cases "pos + count < length argv")
    case True
    then show ?thesis using "1.IH" by (subst shift_loop.simps) simp
  next
    case False
    then show ?thesis by (subst shift_loop.simps) simp
  qed
qed

lemma consume_Inr:
  "consume ext opt v count argv i st = Inr (argv', st') \<Longrightarrow>
     argv' = shift_loop argv i count"
  by (cases "call_func ext (func opt) v st") (simp_all add: consume_def remove_options_def)

lemma handle_match_shorter:
  assumes "handle_match ext opt equalarg argv i st = Inr (argv', st')" and "i < length argv"
  shows "length argv' < length argv"
proof -
  have "argv' = shift_loop argv i 1 \<or> (argv' = shift_loop argv i 2 \<and> i + 1 < length argv)"
    using assms(1) unfolding handle_match_def
    by (cases equalarg; cases "has_arg opt \<and> i + 1 < length argv") (auto dest: consume_Inr)
  then show ?thesis using assms(2) by (auto simp: length_shift_loop)
qed

function parse_loop ::
    "extern \<Rightarrow> string list \<Rightarrow> nat \<Rightarrow> proc \<Rightarrow> (string list \<times> proc) result" where
  "parse_loop ext argv i st =
     (if length argv \<le> i then Inr (argv, st)
      else case match_token (argv ! i) of
             Skip \<Rightarrow> parse_loop ext argv (i + 1) st
           | Separator \<Rightarrow> Inr (argv, st)
           | Found opt equalarg \<Rightarrow>
               (case handle_match ext opt equalarg argv i st of
                  Inl e \<Rightarrow> Inl e
                | Inr (argv', st') \<Rightarrow> parse_loop ext argv' i st'))"
  by pat_completeness auto
termination
proof (relation "measure (\<lambda>(ext, argv, i, st). length argv - i)", goal_cases)
  case 1
  show ?case by simp
next
  case (2 ext argv i st)
  then show ?case by simp
next
  case (3 ext argv i st opt equalarg r argv' st')
  then have "i < length argv" by simp
  moreover from 3 this have "length argv' < length argv"
    using handle_match_shorter [of ext opt equalarg argv i st argv' st'] by simp
  ultimately show ?case by simp
qed

declare parse_loop.simps [simp del]

definition parse_options :: "extern \<Rightarrow> string list \<Rightarrow> proc \<Rightarrow> (string list \<times> proc) result" where
  "parse_options ext argv st = parse_loop ext argv 0 st"

subsection \<open>\<open>inherit_options\<close>\<close>

text \<open>
  The \<open>for\<close> loop that fills the local array of 256 entries: \<open>tok\<close> is the result
  of the last \<open>strtok\<close>, at most 255 tokens are stored.
\<close>

function token_loop :: "nat \<Rightarrow> (string \<times> string) option \<Rightarrow> string list" where
  "token_loop n tok =
     (case tok of
        None \<Rightarrow> []
      | Some (p, buf) \<Rightarrow>
          if n < 255 then p # token_loop (n + 1) (strtok buf [CHR '' '', CHR 0x09]) else [])"
  by pat_completeness auto
termination
  by (relation "measure (\<lambda>(n, tok). 255 - n)") auto

declare token_loop.simps [simp del]

definition inherit_options :: "extern \<Rightarrow> string \<Rightarrow> proc \<Rightarrow> proc result" where
  "inherit_options ext buffer st =
     (case parse_options ext (token_loop 0 (strtok buffer [CHR '' '', CHR 0x09])) st of
        Inl e \<Rightarrow> Inl e
      | Inr (argv, st') \<Rightarrow>
          (case argv of
             [] \<Rightarrow> Inr st'
           | a # _ \<Rightarrow> Inl (OPTIONS_Usage (MESSAGE (Msg_unknown_option_env a) st'))))"

subsection \<open>\<open>OPTIONS_ParseOptions\<close>\<close>

text \<open>The loop that checks if any option remains, from index \<open>i\<close>.\<close>

function check_loop :: "string list \<Rightarrow> nat \<Rightarrow> proc \<Rightarrow> (string list \<times> proc) result" where
  "check_loop argv i st =
     (if length argv \<le> i then Inr (argv, st)
      else if argv ! i = ''--'' then Inr (remove_options argv i 1 False st)
      else if take 1 (argv ! i) = ''-''
      then Inl (OPTIONS_Usage (MESSAGE (Msg_unknown_option (argv ! i)) st))
      else check_loop argv (i + 1) st)"
  by pat_completeness auto
termination
  by (relation "measure (\<lambda>(argv, i, st). length argv - i)") auto

declare check_loop.simps [simp del]

text \<open>
  The first statement of \<open>OPTIONS_ParseOptions\<close>. \<open>buffer\<close> is what
  \<open>GetEnvironmentVariableA\<close> left in the buffer, \<open>None\<close> when it returned 0.
\<close>

definition replay_WINEOPTIONS :: "extern \<Rightarrow> string option \<Rightarrow> proc \<Rightarrow> proc result" where
  "replay_WINEOPTIONS ext buffer st =
     (case buffer of
        None \<Rightarrow> Inr st
      | Some b \<Rightarrow> if b \<noteq> [] then inherit_options ext b st else Inr st)"

text \<open>\<open>argv0\<close> is \<open>argv[0]\<close> and \<open>args\<close> the array \<open>argv + 1\<close>.\<close>

definition OPTIONS_ParseOptions ::
    "extern \<Rightarrow> string option \<Rightarrow> string \<Rightarrow> string list \<Rightarrow> proc \<Rightarrow> proc result" where
  "OPTIONS_ParseOptions ext buffer argv0 args st =
     (case replay_WINEOPTIONS ext buffer st of
        Inl e \<Rightarrow> Inl e
      | Inr st1 \<Rightarrow>
          (case parse_options ext args st1 of
             Inl e \<Rightarrow> Inl e
           | Inr (args', st2) \<Rightarrow>
               (case check_loop (argv0 # args') 1 (st2\<lparr>env_WINEOPTIONS := inherit_str st2\<rparr>) of
                  Inl e \<Rightarrow> Inl e
                | Inr (argv, st3) \<Rightarrow> Inr (st3\<lparr>app_argv := argv, app_argc := length argv\<rparr>))))"

subsection \<open>Definitions used to state the properties\<close>

text \<open>External handlers that return on every argument.\<close>

definition ext_return :: extern where
  "ext_return h arg = None"

text \<open>
  The split rule in the words of the specification: the first character of the
  directive that is \<open>+\<close> or \<open>-\<close>, and the directive is malformed when there is
  none or when nothing follows it.
\<close>

definition spec_first_sign :: "string \<Rightarrow> nat option" where
  "spec_first_sign d =
     (if CHR ''+'' \<in> set d \<or> CHR ''-'' \<in> set d
      then Some (length (takeWhile (\<lambda>c. c \<noteq> CHR ''+'' \<and> c \<noteq> CHR ''-'') d))
      else None)"

definition spec_malformed :: "string \<Rightarrow> bool" where
  "spec_malformed d = (case spec_first_sign d of None \<Rightarrow> True | Some k \<Rightarrow> drop (k + 1) d = [])"

text \<open>
  The scanning pass in the words of the specification, as a keep-or-drop decision for
  each token: a token that is not an option or matches no descriptor is kept, the
  separator keeps itself and everything after it, a match drops its token, and the
  following token too when the descriptor takes a value that is not given inline.
\<close>

fun spec_unconsumed :: "string list \<Rightarrow> string list" where
  "spec_unconsumed [] = []"
| "spec_unconsumed (t # ts) =
     (case match_token t of
        Skip \<Rightarrow> t # spec_unconsumed ts
      | Separator \<Rightarrow> t # ts
      | Found opt equalarg \<Rightarrow>
          (case equalarg of
             Some v \<Rightarrow> spec_unconsumed ts
           | None \<Rightarrow> if has_arg opt then spec_unconsumed (drop 1 ts) else spec_unconsumed ts))"

text \<open>
  The handlers of the inheritable options of the table.
\<close>

definition inheritable :: "handler \<Rightarrow> bool" where
  "inheritable h = (h \<in> set (map func (filter inherit option_table)))"

text \<open>
  The tokens joined by one space, as \<open>remove_options\<close> accumulates them in
  \<open>inherit_str\<close>.
\<close>

fun join_tokens :: "string list \<Rightarrow> string" where
  "join_tokens [] = []"
| "join_tokens [t] = t"
| "join_tokens (t # u # ts) = t @ '' '' @ join_tokens (u # ts)"

text \<open>
  The size of \<open>inherit_str\<close>, the NULL pointer below the empty string.
\<close>

definition inherit_size :: "proc \<Rightarrow> nat" where
  "inherit_size st = (case inherit_str st of None \<Rightarrow> 0 | Some s \<Rightarrow> Suc (length s))"

text \<open>
  The components of a text split at every occurrence of the character \<open>c\<close>.
\<close>

fun spec_split :: "char \<Rightarrow> string \<Rightarrow> string list" where
  "spec_split c [] = [[]]"
| "spec_split c (x # xs) =
     (if x = c then [] # spec_split c xs
      else (x # hd (spec_split c xs)) # tl (spec_split c xs))"

section \<open>Properties of the message filter\<close>

subsection \<open>The split of a directive and the class directives\<close>

lemmas debugmsg_eval =
  do_debugmsg_def strtok_def debugmsg_loop.simps do_directive_def split_directive_def
  find_sign_def debug_class_names_def forward_option_def wine_dbg_add_option_def
  debugmsg_error_def MESSAGE_def strncasecmp_eq_def tolower_def Let_def
  store_output_def module_list_def module_loop.simps strupr_def toupper_def

lemma strchr_takeWhile:
  "strchr xs c = (if c \<in> set xs then Some (length (takeWhile (\<lambda>x. x \<noteq> c) xs)) else None)"
  by (induction xs) auto

lemma drop_takeWhile_length: "drop (length (takeWhile P xs)) xs = dropWhile P xs"
  by (induction xs) auto

lemma take_takeWhile_length: "take (length (takeWhile P xs)) xs = takeWhile P xs"
  by (induction xs) auto

lemma split_at_sign:
  assumes "find_sign d = Some (length (takeWhile (\<lambda>c. c \<noteq> s) d))"
  shows "split_directive d =
           (if drop 1 (dropWhile (\<lambda>c. c \<noteq> s) d) \<noteq> []
            then Some (takeWhile (\<lambda>c. c \<noteq> s) d, dropWhile (\<lambda>c. c \<noteq> s) d) else None)"
proof -
  let ?k = "length (takeWhile (\<lambda>c. c \<noteq> s) d)"
  have "drop (?k + 1) d = drop 1 (drop ?k d)" by simp
  then have "drop (?k + 1) d = drop 1 (dropWhile (\<lambda>c. c \<noteq> s) d)"
    by (simp only: drop_takeWhile_length)
  then show ?thesis
    unfolding split_directive_def assms option.case take_takeWhile_length drop_takeWhile_length
    by (cases "drop 1 (dropWhile (\<lambda>c. c \<noteq> s) d) = []") simp_all
qed

text \<open>
  C7. The argument \<open>+all,warn-heap\<close> makes two calls of \<open>wine_dbg_add_option\<close>, in
  this order: every bit set for the empty name, then the bit of \<open>warn\<close> (index 2 of
  the class names) cleared for \<open>heap\<close>. The arguments \<open>foo\<close> and \<open>+\<close> print the
  syntax text and end the process with code 1. This holds in every state.
\<close>

theorem debugmsg_all_warn_heap:
  "do_debugmsg ''+all,warn-heap'' st =
     Inr (st\<lparr>dbg_options := dbg_options st @ [('''', 255, 0), (''heap'', 0, push_bit 2 1)]\<rparr>)
   \<and> debug_class_names ! 2 = ''warn''
   \<and> do_debugmsg ''foo'' st = Inl (1, MESSAGE Msg_debugmsg_syntax st)
   \<and> do_debugmsg ''+'' st = Inl (1, MESSAGE Msg_debugmsg_syntax st)"
  by (simp add: debugmsg_eval)

subsection \<open>The module list of a relay directive\<close>

lemma spec_split_no_sep: "c \<notin> set xs \<Longrightarrow> spec_split c xs = [xs]"
  by (induction xs) auto

lemma spec_split_at:
  "c \<notin> set xs \<Longrightarrow> spec_split c (xs @ c # ys) = xs # spec_split c ys"
  by (induction xs) auto

lemma strchr_None: "strchr xs c = None \<Longrightarrow> c \<notin> set xs"
  by (simp add: strchr_takeWhile split: if_splits)

lemma strchr_Some:
  assumes "strchr xs c = Some k"
  shows "xs = take k xs @ c # drop (k + 1) xs \<and> c \<notin> set (take k xs)"
proof -
  from assms have m: "c \<in> set xs" and k: "k = length (takeWhile (\<lambda>x. x \<noteq> c) xs)"
    by (simp_all add: strchr_takeWhile split: if_splits)
  have t: "take k xs = takeWhile (\<lambda>x. x \<noteq> c) xs" unfolding k by (rule take_takeWhile_length)
  have d: "drop k xs = dropWhile (\<lambda>x. x \<noteq> c) xs" unfolding k by (rule drop_takeWhile_length)
  from m have "dropWhile (\<lambda>x. x \<noteq> c) xs \<noteq> []" by (simp add: dropWhile_eq_Nil_conv)
  moreover have "hd (dropWhile (\<lambda>x. x \<noteq> c) xs) = c"
    using hd_dropWhile [OF calculation] by simp
  ultimately have "drop k xs = c # drop (k + 1) xs"
    unfolding d [symmetric] by (cases "drop k xs") (auto simp: drop_Suc drop_tl)
  then have "xs = take k xs @ c # drop (k + 1) xs"
    by (metis append_take_drop_id)
  moreover have "c \<notin> set (take k xs)" unfolding t by (auto dest: set_takeWhileD)
  ultimately show ?thesis by simp
qed

lemma module_loop_split:
  "module_loop p s = (ms, s') \<Longrightarrow>
     ms @ [Some (strupr (drop s' p))] =
       map (\<lambda>m. Some (strupr m)) (spec_split (CHR '':'') (drop s p))"
proof (induction p s arbitrary: ms s' rule: module_loop.induct)
  case (1 p s)
  show ?case
  proof (cases "strchr (drop s p) (CHR '':'')")
    case None
    with "1.prems" have "ms = []" "s' = s" by (simp_all add: module_loop.simps)
    with strchr_None [OF None] show ?thesis by (simp add: spec_split_no_sep)
  next
    case (Some k)
    obtain ms1 s1 where r: "module_loop p (s + k + 1) = (ms1, s1)"
      by (cases "module_loop p (s + k + 1)")
    with "1.prems" Some have ms: "ms = Some (strupr (take k (drop s p))) # ms1" and s': "s' = s1"
      by (simp_all add: module_loop.simps)
    from strchr_Some [OF Some]
    have e: "drop s p = take k (drop s p) @ CHR '':'' # drop (s + k + 1) p"
      and n: "CHR '':'' \<notin> set (take k (drop s p))"
      by (simp_all add: add.commute add.left_commute)
    have "spec_split (CHR '':'') (drop s p) =
        take k (drop s p) # spec_split (CHR '':'') (drop (s + k + 1) p)"
      by (subst e) (rule spec_split_at [OF n])
    with "1.IH" [OF Some r] ms s' show ?thesis by simp
  qed
qed

lemma module_list_split:
  assumes "CHR '','' \<notin> set p"
  shows "module_list p =
     map (\<lambda>m. Some (strupr m)) (spec_split (CHR '':'') (drop 7 p)) @ [None]"
proof -
  obtain ms s where r: "module_loop p 7 = (ms, s)" by (cases "module_loop p 7")
  from assms have l: "strchr p (CHR '','') = None" by (simp add: strchr_takeWhile)
  have "module_list p = (ms @ [Some (strupr (drop s p))]) @ [None]"
    using r l by (simp add: module_list_def Let_def)
  with module_loop_split [OF r] show ?thesis by simp
qed

lemma strtok_whole:
  assumes "c \<notin> set t" and "t \<noteq> []"
  shows "strtok t [c] = Some (t, [])"
proof -
  have a: "dropWhile (\<lambda>x. x \<in> set [c]) t = t" using assms by (cases t) auto
  have b: "takeWhile (\<lambda>x. x \<notin> set [c]) t = t" using assms(1) by auto
  have d: "dropWhile (\<lambda>x. x \<notin> set [c]) t = []" using assms(1) by auto
  show ?thesis unfolding strtok_def Let_def a b d using assms(2) by simp
qed

lemma debugmsg_loop_last: "debugmsg_loop opt [] st = do_directive opt st"
  by (subst debugmsg_loop.simps) (simp add: strtok_def split: sum.splits)

lemma relay_directive:
  "do_directive (''+relay='' @ m) st =
     Inr (st\<lparr>debug_relay_includelist := Some (module_list (''+relay='' @ m)),
             dbg_options := dbg_options st @ [(''relay'', 255, 0)]\<rparr>)"
  by (simp add: do_directive_def split_directive_def find_sign_def strncasecmp_eq_def
        tolower_def store_output_def forward_option_def wine_dbg_add_option_def Let_def)

text \<open>
  C8. For a text \<open>m\<close> without a comma, the argument \<open>+relay=m\<close> replaces
  \<open>debug_relay_includelist\<close>, whatever it was, by a new array: the components of
  \<open>m\<close> between its colons, each in upper case, and then the NULL sentinel. For
  \<open>+relay=USER32:KERNEL32\<close> this is the array of \<open>USER32\<close>, \<open>KERNEL32\<close> and
  the sentinel.
\<close>

theorem debugmsg_relay_list:
  "(CHR '','' \<notin> set m \<longrightarrow>
      do_debugmsg (''+relay='' @ m) st =
        Inr (st\<lparr>debug_relay_includelist :=
                  Some (map (\<lambda>n. Some (strupr n)) (spec_split (CHR '':'') m) @ [None]),
                dbg_options := dbg_options st @ [(''relay'', 255, 0)]\<rparr>))
   \<and> do_debugmsg ''+relay=USER32:KERNEL32'' st =
        Inr (st\<lparr>debug_relay_includelist := Some [Some ''USER32'', Some ''KERNEL32'', None],
                dbg_options := dbg_options st @ [(''relay'', 255, 0)]\<rparr>)"
proof -
  have g: "do_debugmsg (''+relay='' @ m) st =
        Inr (st\<lparr>debug_relay_includelist :=
                  Some (map (\<lambda>n. Some (strupr n)) (spec_split (CHR '':'') m) @ [None]),
                dbg_options := dbg_options st @ [(''relay'', 255, 0)]\<rparr>)"
    if "CHR '','' \<notin> set m" for m
  proof -
    from that have c: "CHR '','' \<notin> set (''+relay='' @ m)" by simp
    have t: "strtok (''+relay='' @ m) '','' = Some (''+relay='' @ m, [])"
      by (rule strtok_whole [OF c]) simp
    have "do_debugmsg (''+relay='' @ m) st = do_directive (''+relay='' @ m) st"
      by (simp only: do_debugmsg_def t option.case prod.case debugmsg_loop_last)
    then show ?thesis
      unfolding relay_directive module_list_split [OF c] by simp
  qed
  have "CHR '','' \<notin> set ''USER32:KERNEL32''" by simp
  from g [OF this] have "do_debugmsg ''+relay=USER32:KERNEL32'' st =
        Inr (st\<lparr>debug_relay_includelist := Some [Some ''USER32'', Some ''KERNEL32'', None],
                dbg_options := dbg_options st @ [(''relay'', 255, 0)]\<rparr>)"
    by (simp add: strupr_def toupper_def)
  with g show ?thesis by blast
qed

theorem debugmsg_relay_list_witness:
  "CHR '','' \<notin> set ''user32:Kernel32:'' \<and>
   do_debugmsg ''+relay=user32:Kernel32:'' proc0 =
     Inr (proc0\<lparr>debug_relay_includelist :=
                  Some [Some ''USER32'', Some ''KERNEL32'', Some [], None],
                dbg_options := [(''relay'', 255, 0)]\<rparr>)"
proof -
  have h: "CHR '','' \<notin> set ''user32:Kernel32:''" by simp
  from debugmsg_relay_list [of "''user32:Kernel32:''" proc0] h show ?thesis
    by (simp add: strupr_def toupper_def proc0_def)
qed

subsection \<open>The split point\<close>

text \<open>
  C4, as the code has it. The directive is split at its first \<open>+\<close> when it has one,
  and at its first \<open>-\<close> otherwise: the class name is the text before that character
  and \<open>p\<close> the text from it. The split fails, and the directive is rejected, exactly
  when the directive has neither character or nothing follows the split point.
\<close>

theorem split_directive_sign:
  "split_directive d =
     (let s = (if CHR ''+'' \<in> set d then CHR ''+'' else CHR ''-'');
          cls = takeWhile (\<lambda>c. c \<noteq> s) d;
          p = dropWhile (\<lambda>c. c \<noteq> s) d
      in if s \<in> set d \<and> drop 1 p \<noteq> [] then Some (cls, p) else None)"
proof (cases "CHR ''+'' \<in> set d")
  case True
  then have "find_sign d = Some (length (takeWhile (\<lambda>c. c \<noteq> CHR ''+'') d))"
    by (simp add: find_sign_def strchr_takeWhile)
  from split_at_sign [OF this] True show ?thesis by (simp add: Let_def)
next
  case False
  show ?thesis
  proof (cases "CHR ''-'' \<in> set d")
    case True
    with False have "find_sign d = Some (length (takeWhile (\<lambda>c. c \<noteq> CHR ''-'') d))"
      by (simp add: find_sign_def strchr_takeWhile)
    from split_at_sign [OF this] True False show ?thesis by (simp add: Let_def)
  next
    case n: False
    with False have "find_sign d = None" by (simp add: find_sign_def strchr_takeWhile)
    with n False show ?thesis by (simp add: split_directive_def Let_def)
  qed
qed

text \<open>
  C4, as the specification has it, fails on \<open>warn-a+\<close>: the first of the two
  characters is the \<open>-\<close> at offset 4 and the text \<open>a+\<close> follows it, so by that
  rule the directive is well formed, with the class name \<open>warn\<close>; the code splits at
  the \<open>+\<close> at offset 6, finds nothing after it and rejects the directive.
\<close>

theorem split_directive_first_sign_counterexample:
  "spec_first_sign ''warn-a+'' = Some 4 \<and> \<not> spec_malformed ''warn-a+'' \<and>
   find_sign ''warn-a+'' = Some 6 \<and> split_directive ''warn-a+'' = None \<and>
   do_directive ''warn-a+'' proc0 = Inl (1, proc0\<lparr>messages := [Msg_debugmsg_syntax]\<rparr>)"
  by code_simp

subsection \<open>Module directives are forwarded\<close>

lemma tolower_r: "tolower c = CHR ''r'' \<Longrightarrow> c = CHR ''r'' \<or> c = CHR ''R''"
  by (simp add: tolower_def split: if_splits)

lemma tolower_s: "tolower c = CHR ''s'' \<Longrightarrow> c \<noteq> CHR ''r''"
  by (auto simp: tolower_def)

lemma keyword_first:
  assumes "strncasecmp_eq (drop 1 opt) kw 6" and "kw \<noteq> []"
  shows "drop 1 opt \<noteq> [] \<and> tolower (opt ! 1) = tolower (kw ! 0)"
proof -
  from assms have "map tolower (take 6 (drop 1 opt)) = map tolower (take 6 kw)"
    by (simp add: strncasecmp_eq_def)
  with assms(2) show ?thesis by (cases opt; cases "tl opt"; cases kw) auto
qed

text \<open>
  C3, as the code has it. A directive without a class name whose text after the sign
  begins, in any case, with \<open>relay=\<close> or \<open>snoop=\<close>, and not with an upper-case
  \<open>R\<close>, replaces the list of this subsystem and of the sign's polarity by
  \<open>module_list\<close>, and then makes one call of \<open>wine_dbg_add_option\<close>: every bit
  to set, none to clear, for the five characters of the keyword as they are written.
\<close>

theorem module_directive_forwards:
  assumes "split_directive opt = Some ([], opt)"
    and "strncasecmp_eq (drop 1 opt) ''relay='' 6 \<or> strncasecmp_eq (drop 1 opt) ''snoop='' 6"
    and "opt ! 1 \<noteq> CHR ''R''"
  shows "do_directive opt st =
     Inr ((if opt ! 0 = CHR ''+'' then
             (if strncasecmp_eq (drop 1 opt) ''relay='' 6
              then st\<lparr>debug_relay_includelist := Some (module_list opt)\<rparr>
              else st\<lparr>debug_snoop_includelist := Some (module_list opt)\<rparr>)
           else
             (if strncasecmp_eq (drop 1 opt) ''relay='' 6
              then st\<lparr>debug_relay_excludelist := Some (module_list opt)\<rparr>
              else st\<lparr>debug_snoop_excludelist := Some (module_list opt)\<rparr>))
          \<lparr>dbg_options := dbg_options st @ [(take 5 (drop 1 opt), 255, 0)]\<rparr>)"
proof -
  have lr: "tolower (''relay='' ! 0) = CHR ''r''" and ls: "tolower (''snoop='' ! 0) = CHR ''s''"
    by (simp_all add: tolower_def)
  have r: "opt ! 1 = CHR ''r''" if "strncasecmp_eq (drop 1 opt) ''relay='' 6"
  proof -
    from keyword_first [OF that] lr have "tolower (opt ! 1) = CHR ''r''" by simp
    from tolower_r [OF this] assms(3) show ?thesis by simp
  qed
  have s: "opt ! 1 \<noteq> CHR ''r''" if "\<not> strncasecmp_eq (drop 1 opt) ''relay='' 6"
  proof -
    from that assms(2) have "strncasecmp_eq (drop 1 opt) ''snoop='' 6" by simp
    from keyword_first [OF this] ls have "tolower (opt ! 1) = CHR ''s''" by simp
    then show ?thesis by (rule tolower_s)
  qed
  have t: "drop (Suc 0) (take 6 opt) = take 5 (drop (Suc 0) opt)" by (simp add: drop_take)
  have a: "take 5 (drop 1 opt) \<noteq> ''all''"
  proof
    assume e: "take 5 (drop 1 opt) = ''all''"
    from assms(2) have "length (take 6 (drop 1 opt)) = 6"
      by (auto simp: strncasecmp_eq_def dest: arg_cong [where f = length])
    then have "length (take 5 (drop 1 opt)) = 5" by simp
    with e show False by simp
  qed
  show ?thesis
    using assms(1,2) r s a
    by (cases "strncasecmp_eq (drop 1 opt) ''relay='' 6")
       (simp_all add: do_directive_def forward_option_def wine_dbg_add_option_def
          store_output_def t Let_def)
qed

theorem module_directive_forwards_witness:
  "do_directive ''-snoop=gdi32:user32'' proc0 =
     Inr (proc0\<lparr>debug_snoop_excludelist := Some [Some ''GDI32'', Some ''USER32'', None],
                dbg_options := [(''snoop'', 255, 0)]\<rparr>)"
proof -
  have a: "split_directive ''-snoop=gdi32:user32'' = Some ([], ''-snoop=gdi32:user32'')"
    by code_simp
  have b: "strncasecmp_eq (drop 1 ''-snoop=gdi32:user32'') ''snoop='' 6"
    "\<not> strncasecmp_eq (drop 1 ''-snoop=gdi32:user32'') ''relay='' 6"
    by code_simp+
  have c: "''-snoop=gdi32:user32'' ! 1 \<noteq> CHR ''R''" "''-snoop=gdi32:user32'' ! 0 \<noteq> CHR ''+''"
    by simp_all
  have m: "module_list ''-snoop=gdi32:user32'' = [Some ''GDI32'', Some ''USER32'', None]"
    by code_simp
  from module_directive_forwards [OF a _ c(1), of proc0] b c(2) m show ?thesis
    by (simp add: proc0_def)
qed

text \<open>
  C3, as the specification has it, fails on \<open>+relay=USER32\<close>: the list is replaced
  and the call \<open>(relay, 255, 0)\<close> is forwarded.
\<close>

theorem module_directive_silent_counterexample:
  "do_directive ''+relay=USER32'' proc0 =
     Inr (proc0\<lparr>debug_relay_includelist := Some [Some ''USER32'', None],
                dbg_options := [(''relay'', 255, 0)]\<rparr>)"
  by code_simp

section \<open>Properties of the scanner\<close>

subsection \<open>What the handlers leave unchanged\<close>

lemma forward_option_frame [simp]:
  "calls (forward_option p a b st) = calls st"
  "messages (forward_option p a b st) = messages st"
  "inherit_str (forward_option p a b st) = inherit_str st"
  by (simp_all add: forward_option_def wine_dbg_add_option_def Let_def)

lemma store_output_frame [simp]:
  "calls (store_output p ms st) = calls st"
  "messages (store_output p ms st) = messages st"
  "inherit_str (store_output p ms st) = inherit_str st"
  by (simp_all add: store_output_def)

lemma do_directive_frame:
  assumes "do_directive opt st = Inr st'"
  shows "calls st' = calls st \<and> messages st' = messages st \<and> inherit_str st' = inherit_str st"
proof (cases "split_directive opt")
  case None
  with assms show ?thesis by (simp add: do_directive_def)
next
  case (Some a)
  obtain cls p where a: "a = (cls, p)" by (cases a)
  show ?thesis
  proof (cases "cls = []")
    case True
    with assms Some a show ?thesis
      by (auto simp: do_directive_def split: if_splits)
  next
    case False
    with assms Some a show ?thesis
      by (cases "class_loop cls 0 debug_class_names")
         (auto simp: do_directive_def split: if_splits)
  qed
qed

lemma debugmsg_loop_frame:
  "debugmsg_loop opt buf st = Inr st' \<Longrightarrow>
     calls st' = calls st \<and> messages st' = messages st \<and> inherit_str st' = inherit_str st"
proof (induction opt buf st rule: debugmsg_loop.induct)
  case (1 opt buf st)
  from "1.prems" obtain st1 where d: "do_directive opt st = Inr st1"
    by (subst (asm) debugmsg_loop.simps) (auto split: sum.splits)
  note f = do_directive_frame [OF d]
  show ?case
  proof (cases "strtok buf '',''")
    case None
    with "1.prems" d have "st' = st1" by (subst (asm) debugmsg_loop.simps) simp
    with f show ?thesis by simp
  next
    case (Some a)
    obtain opt' buf' where a: "a = (opt', buf')" by (cases a)
    with "1.prems" d Some have "debugmsg_loop opt' buf' st1 = Inr st'"
      by (subst (asm) debugmsg_loop.simps) simp
    from "1.IH" [OF d Some a [symmetric] this] f show ?thesis by simp
  qed
qed

lemma do_debugmsg_frame:
  "do_debugmsg arg st = Inr st' \<Longrightarrow>
     calls st' = calls st \<and> messages st' = messages st \<and> inherit_str st' = inherit_str st"
  by (auto simp: do_debugmsg_def split: option.splits dest: debugmsg_loop_frame)

lemma do_debugmsg_empty: "do_debugmsg [] st = Inl (1, MESSAGE Msg_debugmsg_syntax st)"
  by (simp add: do_debugmsg_def strtok_def debugmsg_error_def)

lemma call_func_frame:
  assumes "call_func ext h arg st = Inr st'"
  shows "calls st' = calls st @ [(h, arg)] \<and> messages st' = messages st
     \<and> inherit_str st' = inherit_str st"
proof (cases "h = do_debugmsg_fn")
  case True
  with assms have "do_debugmsg arg (st\<lparr>calls := calls st @ [(h, arg)]\<rparr>) = Inr st'"
    by (simp add: call_func_def)
  from do_debugmsg_frame [OF this] show ?thesis by simp
next
  case False
  with assms show ?thesis
    by (cases h)
       (auto simp: call_func_def Let_def do_help_def do_version_def do_managed_def
          call_extern_def split: option.splits)
qed

subsection \<open>The loops of the scanner\<close>

lemma shift_loop_eq: "shift_loop argv pos count = take pos argv @ drop (pos + count) argv"
proof (induction argv pos count rule: shift_loop.induct)
  case (1 argv pos count)
  show ?case
  proof (cases "pos + count < length argv")
    case True
    then have "shift_loop argv pos count =
        take (pos + 1) (argv[pos := argv ! (pos + count)]) @
        drop (pos + 1 + count) (argv[pos := argv ! (pos + count)])"
      using "1.IH" by (subst shift_loop.simps) simp
    also have "\<dots> = take pos argv @ argv ! (pos + count) # drop (Suc (pos + count)) argv"
      using True by (simp add: take_Suc_conv_app_nth)
    also have "\<dots> = take pos argv @ drop (pos + count) argv"
      using True by (simp add: Cons_nth_drop_Suc)
    finally show ?thesis .
  next
    case False
    then show ?thesis by (subst shift_loop.simps) simp
  qed
qed

lemma join_loop_1: "join_loop argv pos (Suc 0) 0 s = s @ argv ! pos"
  by (simp add: join_loop.simps)

lemma join_loop_2: "join_loop argv pos 2 0 s = s @ argv ! pos @ '' '' @ argv ! (pos + 1)"
  by (simp add: join_loop.simps)


lemma short_loop_mem: "short_loop c opts = Some opt \<Longrightarrow> opt \<in> set opts"
  by (induction opts) (auto split: if_splits)

lemma long_loop_mem: "long_loop p equal opts = Some (opt, e) \<Longrightarrow> opt \<in> set opts"
  by (induction opts) (auto split: if_splits option.splits)

lemma match_token_mem:
  assumes "match_token t = Found opt e"
  shows "opt \<in> set option_table"
proof (cases t)
  case Nil
  with assms show ?thesis by (simp add: match_token_def)
next
  case (Cons c p)
  show ?thesis
  proof (cases "length p = 1")
    case True
    with assms Cons show ?thesis
      by (auto simp: match_token_def split: if_splits option.splits dest: short_loop_mem)
  next
    case False
    with assms Cons show ?thesis
      by (auto simp: match_token_def Let_def split: if_splits option.splits dest: long_loop_mem)
  qed
qed

lemma match_token_not_prefixed: "take 1 t \<noteq> ''-'' \<Longrightarrow> match_token t = Skip"
  by (cases t) (auto simp: match_token_def)

lemma match_token_debugmsg:
  "match_token ''--debugmsg'' = Found (option_table ! 0) None"
  "match_token ''--debugmsg='' = Found (option_table ! 0) (Some [])"
  by (simp_all add: match_token_def option_table_def strncmp_eq_def)

lemma parse_loop_end: "length argv \<le> i \<Longrightarrow> parse_loop ext argv i st = Inr (argv, st)"
  by (subst parse_loop.simps) simp

lemma parse_loop_Skip:
  "i < length argv \<Longrightarrow> match_token (argv ! i) = Skip \<Longrightarrow>
     parse_loop ext argv i st = parse_loop ext argv (i + 1) st"
  by (subst parse_loop.simps) simp

lemma parse_loop_Separator:
  "i < length argv \<Longrightarrow> match_token (argv ! i) = Separator \<Longrightarrow>
     parse_loop ext argv i st = Inr (argv, st)"
  by (subst parse_loop.simps) simp

lemma parse_loop_Found:
  "i < length argv \<Longrightarrow> match_token (argv ! i) = Found opt e \<Longrightarrow>
     parse_loop ext argv i st =
       (case handle_match ext opt e argv i st of
          Inl x \<Rightarrow> Inl x
        | Inr (argv', st') \<Rightarrow> parse_loop ext argv' i st')"
  by (subst parse_loop.simps) simp

subsection \<open>The empty filter argument\<close>

lemma call_debugmsg_empty:
  "call_func ext do_debugmsg_fn [] st =
     Inl (1, MESSAGE Msg_debugmsg_syntax (st\<lparr>calls := calls st @ [(do_debugmsg_fn, [])]\<rparr>))"
  by (simp add: call_func_def do_debugmsg_empty)

text \<open>
  C10. \<open>do_debugmsg\<close> on the empty string prints the syntax text and ends the
  process with code 1, in every state. So does the scanner when it examines the token
  \<open>--debugmsg=\<close>, and when it examines \<open>--debugmsg\<close> as the last token of the
  array: the handler is called with the empty string and nothing is removed.
\<close>

theorem debugmsg_empty_fatal:
  "do_debugmsg [] st = Inl (1, MESSAGE Msg_debugmsg_syntax st)
   \<and> (i < length argv \<and> argv ! i = ''--debugmsg='' \<longrightarrow>
        parse_loop ext argv i st =
          Inl (1, MESSAGE Msg_debugmsg_syntax (st\<lparr>calls := calls st @ [(do_debugmsg_fn, [])]\<rparr>)))
   \<and> (i + 1 = length argv \<and> argv ! i = ''--debugmsg'' \<longrightarrow>
        parse_loop ext argv i st =
          Inl (1, MESSAGE Msg_debugmsg_syntax (st\<lparr>calls := calls st @ [(do_debugmsg_fn, [])]\<rparr>)))"
proof (intro conjI impI)
  show "do_debugmsg [] st = Inl (1, MESSAGE Msg_debugmsg_syntax st)" by (rule do_debugmsg_empty)
next
  assume a: "i < length argv \<and> argv ! i = ''--debugmsg=''"
  then have "match_token (argv ! i) = Found (option_table ! 0) (Some [])"
    by (simp add: match_token_debugmsg)
  with a show "parse_loop ext argv i st =
      Inl (1, MESSAGE Msg_debugmsg_syntax (st\<lparr>calls := calls st @ [(do_debugmsg_fn, [])]\<rparr>))"
    by (simp add: parse_loop_Found handle_match_def consume_def option_table_def
          call_debugmsg_empty)
next
  assume a: "i + 1 = length argv \<and> argv ! i = ''--debugmsg''"
  then have "match_token (argv ! i) = Found (option_table ! 0) None"
    by (simp add: match_token_debugmsg)
  moreover from a have "i < length argv" by simp
  ultimately show "parse_loop ext argv i st =
      Inl (1, MESSAGE Msg_debugmsg_syntax (st\<lparr>calls := calls st @ [(do_debugmsg_fn, [])]\<rparr>))"
    using a
    by (simp add: parse_loop_Found handle_match_def consume_def option_table_def
          call_debugmsg_empty)
qed

theorem debugmsg_empty_fatal_witness:
  "parse_loop ext_return [''--debugmsg='', ''app.exe''] 0 proc0 =
     Inl (1, MESSAGE Msg_debugmsg_syntax (proc0\<lparr>calls := calls proc0 @ [(do_debugmsg_fn, [])]\<rparr>))
   \<and> parse_loop ext_return [''app.exe'', ''--debugmsg''] 1 proc0 =
     Inl (1, MESSAGE Msg_debugmsg_syntax (proc0\<lparr>calls := calls proc0 @ [(do_debugmsg_fn, [])]\<rparr>))"
  using debugmsg_empty_fatal [of proc0 0 "[''--debugmsg='', ''app.exe'']" ext_return]
    debugmsg_empty_fatal [of proc0 1 "[''app.exe'', ''--debugmsg'']" ext_return]
  by simp

subsection \<open>The tokens left by a scan\<close>

lemma handle_match_argv:
  assumes "handle_match ext opt e argv i st = Inr (argv', st')"
  shows "argv' = take i argv @
           drop (i + (if e = None \<and> has_arg opt \<and> i + 1 < length argv then 2 else 1)) argv"
  using assms unfolding handle_match_def
  by (cases e; cases "has_arg opt \<and> i + 1 < length argv")
     (auto dest!: consume_Inr simp: shift_loop_eq)

lemma spec_unconsumed_drop:
  assumes "i < length argv" and "match_token (argv ! i) = Found opt e"
  shows "spec_unconsumed (drop i argv) =
     spec_unconsumed (drop (i + (if e = None \<and> has_arg opt \<and> i + 1 < length argv then 2 else 1)) argv)"
proof -
  have d: "drop i argv = argv ! i # drop (i + 1) argv"
    using assms(1) by (simp add: Cons_nth_drop_Suc)
  have e: "drop 1 (drop (i + 1) argv) = drop (i + 2) argv" by simp
  show ?thesis
  proof (cases "i + 1 < length argv")
    case True
    then show ?thesis unfolding d using assms(2) e by (cases e) auto
  next
    case False
    then have "drop (i + 1) argv = []" by simp
    then show ?thesis unfolding d using assms(2) False by (cases e) auto
  qed
qed

lemma parse_loop_unconsumed:
  "parse_loop ext argv i st = Inr (argv', st') \<Longrightarrow>
     argv' = take i argv @ spec_unconsumed (drop i argv)"
proof (induction ext argv i st rule: parse_loop.induct)
  case (1 ext argv i st)
  show ?case
  proof (cases "length argv \<le> i")
    case True
    with "1.prems" show ?thesis by (simp add: parse_loop_end)
  next
    case False
    then have lt: "i < length argv" by simp
    then have d: "drop i argv = argv ! i # drop (i + 1) argv"
      by (simp add: Cons_nth_drop_Suc)
    show ?thesis
    proof (cases "match_token (argv ! i)")
      case Skip
      with "1.prems" lt have "parse_loop ext argv (i + 1) st = Inr (argv', st')"
        by (simp add: parse_loop_Skip)
      from "1.IH"(1) [OF False Skip this] show ?thesis
        unfolding d using Skip lt by (simp add: take_Suc_conv_app_nth)
    next
      case Separator
      with "1.prems" lt have "argv' = argv" by (simp add: parse_loop_Separator)
      then show ?thesis unfolding d using Separator id_take_nth_drop [OF lt] by simp
    next
      case (Found opt e)
      with "1.prems" lt obtain argv1 st1 where
        h: "handle_match ext opt e argv i st = Inr (argv1, st1)" and
        p: "parse_loop ext argv1 i st1 = Inr (argv', st')"
        by (auto simp: parse_loop_Found split: sum.splits)
      let ?c = "if e = None \<and> has_arg opt \<and> i + 1 < length argv then 2 else 1 :: nat"
      have a1: "argv1 = take i argv @ drop (i + ?c) argv" by (rule handle_match_argv [OF h])
      have len: "length (take i argv) = i" using lt by simp
      from "1.IH"(2) [OF False Found h refl p]
      have "argv' = take i argv1 @ spec_unconsumed (drop i argv1)" .
      also have "take i argv1 = take i argv" unfolding a1 using len by simp
      also have "drop i argv1 = drop (i + ?c) argv" unfolding a1 using len by simp
      also have "spec_unconsumed (drop (i + ?c) argv) = spec_unconsumed (drop i argv)"
        by (rule spec_unconsumed_drop [OF lt Found, symmetric])
      finally show ?thesis .
    qed
  qed
qed

lemma subseq_spec_unconsumed: "subseq (spec_unconsumed xs) xs"
proof (induction xs rule: spec_unconsumed.induct)
  case 1
  show ?case by simp
next
  case (2 t ts)
  show ?case
  proof (cases "match_token t")
    case Skip
    with 2 show ?thesis by simp
  next
    case Separator
    then show ?thesis by simp
  next
    case (Found opt e)
    have "subseq (spec_unconsumed (drop 1 ts)) ts" if "e = None" "has_arg opt"
    proof -
      have "subseq (spec_unconsumed (drop 1 ts)) (drop 1 ts)"
        using "2.IH"(2) [OF Found that] .
      then have "subseq (spec_unconsumed (drop 1 ts)) (take 1 ts @ drop 1 ts)"
        by (rule subseq_drop_many)
      then show ?thesis by simp
    qed
    moreover have "subseq (spec_unconsumed ts) ts" if "e \<noteq> None \<or> \<not> has_arg opt"
      using that "2.IH"(3,4) [OF Found] by (cases e) auto
    ultimately show ?thesis using Found by (cases e) auto
  qed
qed

lemma parse_loop_not_prefixed:
  "list_all (\<lambda>t. take 1 t \<noteq> ''-'') (drop i argv) \<Longrightarrow> parse_loop ext argv i st = Inr (argv, st)"
proof (induction "length argv - i" arbitrary: i)
  case 0
  then show ?case by (simp add: parse_loop_end)
next
  case (Suc n)
  then have lt: "i < length argv" by simp
  then have d: "drop i argv = argv ! i # drop (i + 1) argv"
    by (simp add: Cons_nth_drop_Suc)
  from Suc.prems d have s: "match_token (argv ! i) = Skip"
    and r: "list_all (\<lambda>t. take 1 t \<noteq> ''-'') (drop (i + 1) argv)"
    by (simp_all add: match_token_not_prefixed)
  from Suc.hyps(2) have "n = length argv - (i + 1)" by simp
  from Suc.hyps(1) [OF this r] show ?case using lt s by (simp add: parse_loop_Skip)
qed

text \<open>
  C9. When a scanning pass returns, the array holds exactly the tokens that the
  keep-or-drop walk \<open>spec_unconsumed\<close> keeps, and they form a subsequence of the
  original array, so they stand in their original order. An array without a token
  that starts with \<open>-\<close> comes back unchanged in an unchanged state: no handler is
  called.
\<close>

theorem scan_leaves_unconsumed:
  "(parse_options ext argv st = Inr (argv', st') \<longrightarrow>
      argv' = spec_unconsumed argv \<and> subseq argv' argv)
   \<and> (list_all (\<lambda>t. take 1 t \<noteq> ''-'') argv \<longrightarrow> parse_options ext argv st = Inr (argv, st))"
proof -
  have a: "argv' = spec_unconsumed argv \<and> subseq argv' argv"
    if "parse_options ext argv st = Inr (argv', st')"
  proof -
    from that have "argv' = take 0 argv @ spec_unconsumed (drop 0 argv)"
      unfolding parse_options_def by (rule parse_loop_unconsumed)
    then show ?thesis by (simp add: subseq_spec_unconsumed)
  qed
  have b: "parse_options ext argv st = Inr (argv, st)"
    if "list_all (\<lambda>t. take 1 t \<noteq> ''-'') argv"
    using that unfolding parse_options_def by (simp add: parse_loop_not_prefixed)
  from a b show ?thesis by blast
qed

theorem scan_leaves_unconsumed_witness:
  "parse_options ext_return [''app.exe'', ''--dll'', ''foo'', ''-x'', ''--managed'', ''arg''] proc0 =
     Inr ([''app.exe'', ''-x'', ''arg''],
          proc0\<lparr>managed := True, inherit_str := Some ''--dll foo'',
                calls := [(MODULE_AddLoadOrderOption, ''foo''), (do_managed_fn, [])]\<rparr>)
   \<and> [''app.exe'', ''-x'', ''arg''] =
       spec_unconsumed [''app.exe'', ''--dll'', ''foo'', ''-x'', ''--managed'', ''arg'']
   \<and> subseq [''app.exe'', ''-x'', ''arg'']
        [''app.exe'', ''--dll'', ''foo'', ''-x'', ''--managed'', ''arg'']
   \<and> list_all (\<lambda>t. take 1 t \<noteq> ''-'') [''app.exe'', ''a-b'', []]
   \<and> parse_options ext_return [''app.exe'', ''a-b'', []] proc0 =
       Inr ([''app.exe'', ''a-b'', []], proc0)"
proof -
  have e: "parse_options ext_return [''app.exe'', ''--dll'', ''foo'', ''-x'', ''--managed'', ''arg''] proc0 =
     Inr ([''app.exe'', ''-x'', ''arg''],
          proc0\<lparr>managed := True, inherit_str := Some ''--dll foo'',
                calls := [(MODULE_AddLoadOrderOption, ''foo''), (do_managed_fn, [])]\<rparr>)"
    by code_simp
  have l: "list_all (\<lambda>t. take 1 t \<noteq> ''-'') [''app.exe'', ''a-b'', []]" by simp
  from e l
    scan_leaves_unconsumed [of ext_return
      "[''app.exe'', ''--dll'', ''foo'', ''-x'', ''--managed'', ''arg'']" proc0
      "[''app.exe'', ''-x'', ''arg'']"
      "proc0\<lparr>managed := True, inherit_str := Some ''--dll foo'',
                calls := [(MODULE_AddLoadOrderOption, ''foo''), (do_managed_fn, [])]\<rparr>"]
    scan_leaves_unconsumed [of ext_return "[''app.exe'', ''a-b'', []]" proc0]
  show ?thesis by blast
qed

subsection \<open>A value-taking option as the last token\<close>

lemma value_options_inherit:
  assumes "opt \<in> set option_table" and "has_arg opt"
  shows "inherit opt"
  using assms by (auto simp: option_table_def)

lemma call_func_calls_exit:
  assumes "call_func ext h [] st = Inl e"
  shows "calls (snd e) = calls st @ [(h, [])]"
proof (cases "h = do_debugmsg_fn")
  case True
  with assms show ?thesis by (auto simp: call_debugmsg_empty MESSAGE_def)
next
  case False
  with assms show ?thesis
    by (cases h)
       (auto simp: call_func_def Let_def do_help_def do_version_def do_managed_def
          call_extern_def OPTIONS_Usage_def MESSAGE_def split: option.splits)
qed

text \<open>
  C5, as the code has it. When the scanner examines the last token of the array and
  this token matches a value-taking option without an inline value, it calls the
  handler of the option once, with the empty string. When the handler returns, the
  scanner removes this one token (and folds it into \<open>inherit_str\<close>, every
  value-taking option being inheritable), no message has been printed, and the scan
  ends normally. The process ends at this point only when the handler ends it; the
  handler of \<open>debugmsg\<close> always does: it prints the syntax text and the exit code
  is 1, with no token removed.
\<close>

theorem missing_value_lenient:
  assumes "i + 1 = length argv"
    and "match_token (argv ! i) = Found opt None"
    and "has_arg opt"
  shows "(case call_func ext (func opt) [] st of
           Inl e \<Rightarrow>
             parse_loop ext argv i st = Inl e \<and> calls (snd e) = calls st @ [(func opt, [])]
         | Inr st1 \<Rightarrow>
             parse_loop ext argv i st =
               Inr (take i argv,
                    st1\<lparr>inherit_str :=
                          Some ((case inherit_str st of Some s \<Rightarrow> s @ '' '' | None \<Rightarrow> []) @
                                argv ! i)\<rparr>)
             \<and> calls st1 = calls st @ [(func opt, [])]
             \<and> messages st1 = messages st)
     \<and> (if func opt = do_debugmsg_fn
         then parse_loop ext argv i st =
                Inl (1, MESSAGE Msg_debugmsg_syntax
                          (st\<lparr>calls := calls st @ [(do_debugmsg_fn, [])]\<rparr>))
         else call_func ext (func opt) [] st =
                (case ext (func opt) [] of
                   Some code \<Rightarrow> Inl (code, st\<lparr>calls := calls st @ [(func opt, [])]\<rparr>)
                 | None \<Rightarrow> Inr (st\<lparr>calls := calls st @ [(func opt, [])]\<rparr>)))"
proof -
  from assms(1) have lt: "i < length argv" by simp
  have mem: "opt \<in> set option_table" by (rule match_token_mem [OF assms(2)])
  have a: "case call_func ext (func opt) [] st of
           Inl e \<Rightarrow>
             parse_loop ext argv i st = Inl e \<and> calls (snd e) = calls st @ [(func opt, [])]
         | Inr st1 \<Rightarrow>
             parse_loop ext argv i st =
               Inr (take i argv,
                    st1\<lparr>inherit_str :=
                          Some ((case inherit_str st of Some s \<Rightarrow> s @ '' '' | None \<Rightarrow> []) @
                                argv ! i)\<rparr>)
             \<and> calls st1 = calls st @ [(func opt, [])]
             \<and> messages st1 = messages st"
  proof (cases "call_func ext (func opt) [] st")
    case (Inl e)
    from Inl assms have "handle_match ext opt None argv i st = Inl e"
      by (simp add: handle_match_def consume_def)
    with lt assms(2) have "parse_loop ext argv i st = Inl e" by (simp add: parse_loop_Found)
    with Inl call_func_calls_exit [OF Inl] show ?thesis by simp
  next
    case (Inr st1)
    have inh: "inherit opt" by (rule value_options_inherit [OF mem assms(3)])
    note f = call_func_frame [OF Inr]
    have h: "handle_match ext opt None argv i st =
       Inr (take i argv,
            st1\<lparr>inherit_str :=
                  Some ((case inherit_str st of Some s \<Rightarrow> s @ '' '' | None \<Rightarrow> []) @ argv ! i)\<rparr>)"
      using assms(1) inh Inr f
      by (simp add: handle_match_def consume_def remove_options_def shift_loop_eq join_loop_1)
    have "parse_loop ext argv i st =
       Inr (take i argv,
            st1\<lparr>inherit_str :=
                  Some ((case inherit_str st of Some s \<Rightarrow> s @ '' '' | None \<Rightarrow> []) @ argv ! i)\<rparr>)"
      using lt assms(2) h by (simp add: parse_loop_Found parse_loop_end)
    with Inr f show ?thesis by simp
  qed
  have b: "parse_loop ext argv i st =
        Inl (1, MESSAGE Msg_debugmsg_syntax (st\<lparr>calls := calls st @ [(do_debugmsg_fn, [])]\<rparr>))"
    if "func opt = do_debugmsg_fn"
    using a that by (simp add: call_debugmsg_empty)
  have c: "call_func ext (func opt) [] st =
        (case ext (func opt) [] of
           Some code \<Rightarrow> Inl (code, st\<lparr>calls := calls st @ [(func opt, [])]\<rparr>)
         | None \<Rightarrow> Inr (st\<lparr>calls := calls st @ [(func opt, [])]\<rparr>))"
    if "func opt \<noteq> do_debugmsg_fn"
  proof -
    have e: "call_func ext h [] st =
        (case ext h [] of
           Some code \<Rightarrow> Inl (code, st\<lparr>calls := calls st @ [(h, [])]\<rparr>)
         | None \<Rightarrow> Inr (st\<lparr>calls := calls st @ [(h, [])]\<rparr>))"
      if "h \<in> {MODULE_AddLoadOrderOption, VERSION_ParseDosVersion, VERSION_ParseWinVersion}"
      for h
      using that by (auto simp: call_func_def call_extern_def Let_def)
    from mem assms(3) that
    have "func opt \<in> {MODULE_AddLoadOrderOption, VERSION_ParseDosVersion, VERSION_ParseWinVersion}"
      by (auto simp: option_table_def)
    then show ?thesis by (rule e)
  qed
  from a b c show ?thesis by simp
qed

theorem missing_value_lenient_witness:
  "call_func ext_return VERSION_ParseWinVersion [] proc0 =
     Inr (proc0\<lparr>calls := [(VERSION_ParseWinVersion, [])]\<rparr>)
   \<and> parse_loop ext_return [''app.exe'', ''--winver''] 1 proc0 =
     Inr ([''app.exe''],
          proc0\<lparr>calls := [(VERSION_ParseWinVersion, [])], inherit_str := Some ''--winver''\<rparr>)
   \<and> parse_loop ext_return [''app.exe'', ''-debugmsg''] 1 proc0 =
     Inl (1, proc0\<lparr>calls := [(do_debugmsg_fn, [])], messages := [Msg_debugmsg_syntax]\<rparr>)"
proof -
  have m: "match_token ([''app.exe'', ''--winver''] ! 1) = Found (option_table ! 6) None"
    "match_token ([''app.exe'', ''-debugmsg''] ! 1) = Found (option_table ! 0) None"
    by (simp_all add: match_token_def option_table_def strncmp_eq_def)
  have o: "has_arg (option_table ! 6)" "func (option_table ! 6) = VERSION_ParseWinVersion"
    "has_arg (option_table ! 0)" "func (option_table ! 0) = do_debugmsg_fn"
    by (simp_all add: option_table_def)
  have c: "call_func ext_return VERSION_ParseWinVersion [] proc0 =
     Inr (proc0\<lparr>calls := [(VERSION_ParseWinVersion, [])]\<rparr>)"
    by (simp add: call_func_def call_extern_def ext_return_def proc0_def)
  have l: "1 + 1 = length [''app.exe'', ''--winver'']" "1 + 1 = length [''app.exe'', ''-debugmsg'']"
    by simp_all
  note t1 = missing_value_lenient [OF l(1) m(1) o(1), of ext_return proc0,
      unfolded o(2) c sum.case]
  note t2 = missing_value_lenient [OF l(2) m(2) o(3), of ext_return proc0, unfolded o(4)]
  from t1
  have r1: "parse_loop ext_return [''app.exe'', ''--winver''] 1 proc0 =
     Inr ([''app.exe''],
          proc0\<lparr>calls := [(VERSION_ParseWinVersion, [])], inherit_str := Some ''--winver''\<rparr>)"
    by (simp add: proc0_def)
  from t2
  have r2: "parse_loop ext_return [''app.exe'', ''-debugmsg''] 1 proc0 =
     Inl (1, proc0\<lparr>calls := [(do_debugmsg_fn, [])], messages := [Msg_debugmsg_syntax]\<rparr>)"
    by (simp add: proc0_def MESSAGE_def)
  from c r1 r2 show ?thesis by simp
qed

text \<open>
  C5, as the specification has it, fails for \<open>debugmsg\<close>: with \<open>--debugmsg\<close> as
  the only token the handler is called with the empty string, the syntax text is
  printed and the process ends with code 1; no token has been removed.
\<close>

theorem missing_value_debugmsg_counterexample:
  "parse_options ext_return [''--debugmsg''] proc0 =
     Inl (1, proc0\<lparr>calls := [(do_debugmsg_fn, [])], messages := [Msg_debugmsg_syntax]\<rparr>)"
  by code_simp

subsection \<open>Unknown options\<close>

lemma check_loop_skip:
  "i \<le> n \<Longrightarrow> n \<le> length argv \<Longrightarrow> list_all (\<lambda>x. take 1 x \<noteq> ''-'') (take (n - i) (drop i argv)) \<Longrightarrow>
     check_loop argv i st = check_loop argv n st"
proof (induction "n - i" arbitrary: i)
  case 0
  then show ?case by simp
next
  case (Suc k)
  then have lt: "i < n" "i < length argv" by simp_all
  then have d: "drop i argv = argv ! i # drop (i + 1) argv"
    by (simp add: Cons_nth_drop_Suc)
  from Suc.hyps(2) have t: "n - i = Suc (n - (i + 1))" by simp
  from Suc.prems(3) have a: "take 1 (argv ! i) \<noteq> ''-''"
    and r: "list_all (\<lambda>x. take 1 x \<noteq> ''-'') (take (n - (i + 1)) (drop (i + 1) argv))"
    unfolding d t by simp_all
  from a have "argv ! i \<noteq> ''--''" by auto
  with a lt have "check_loop argv i st = check_loop argv (i + 1) st"
    by (subst check_loop.simps) simp
  also have "\<dots> = check_loop argv n st"
    using Suc.hyps(1) [of "i + 1"] Suc.hyps(2) lt Suc.prems(2) r by simp
  finally show ?case .
qed

lemma check_loop_unknown:
  assumes "list_all (\<lambda>x. take 1 x \<noteq> ''-'') pre" and "take 1 t = ''-''" and "t \<noteq> ''--''"
  shows "check_loop (argv0 # pre @ t # post) 1 st =
           Inl (OPTIONS_Usage (MESSAGE (Msg_unknown_option t) st))"
proof -
  let ?argv = "argv0 # pre @ t # post"
  have "check_loop ?argv 1 st = check_loop ?argv (length pre + 1) st"
    by (rule check_loop_skip) (use assms(1) in simp_all)
  also have "\<dots> = Inl (OPTIONS_Usage (MESSAGE (Msg_unknown_option t) st))"
    using assms(2,3) by (subst check_loop.simps) (simp add: nth_append)
  finally show ?thesis .
qed

lemma check_loop_separator:
  assumes "list_all (\<lambda>x. take 1 x \<noteq> ''-'') pre"
  shows "check_loop (argv0 # pre @ ''--'' # post) 1 st = Inr (argv0 # pre @ post, st)"
proof -
  let ?argv = "argv0 # pre @ ''--'' # post"
  have "check_loop ?argv 1 st = check_loop ?argv (length pre + 1) st"
    by (rule check_loop_skip) (use assms in simp_all)
  also have "\<dots> = Inr (remove_options ?argv (length pre + 1) 1 False st)"
    by (subst check_loop.simps) (simp add: nth_append)
  also have "remove_options ?argv (length pre + 1) 1 False st = (argv0 # pre @ post, st)"
    by (simp add: remove_options_def shift_loop_eq)
  finally show ?thesis .
qed

text \<open>
  C2, as the code has it. Let the replay of the environment and the scanning pass
  return, and let \<open>t\<close> be the first token left in \<open>argv + 1\<close> that starts with
  \<open>-\<close>. When \<open>t\<close> is not the separator \<open>--\<close>, the process prints the
  unknown-option message that names \<open>t\<close> and ends in \<open>OPTIONS_Usage\<close>, whose exit
  code is 0. When \<open>t\<close> is the separator, it is removed and the process goes on: the
  tokens after it, whatever they start with, are not examined and stay in the array
  of the application.
\<close>

theorem unknown_option_exit_code:
  assumes "replay_WINEOPTIONS ext buffer st = Inr st1"
    and "parse_options ext args st1 = Inr (pre @ t # post, st2)"
    and "list_all (\<lambda>x. take 1 x \<noteq> ''-'') pre"
    and "take 1 t = ''-''"
  shows "OPTIONS_ParseOptions ext buffer argv0 args st =
     (if t = ''--''
      then Inr (st2\<lparr>env_WINEOPTIONS := inherit_str st2,
                    app_argv := argv0 # pre @ post,
                    app_argc := length (argv0 # pre @ post)\<rparr>)
      else Inl (0, MESSAGE Msg_usage
                     (MESSAGE (Msg_unknown_option t)
                        (st2\<lparr>env_WINEOPTIONS := inherit_str st2\<rparr>))))"
proof (cases "t = ''--''")
  case True
  with assms(1,2) check_loop_separator [OF assms(3)] show ?thesis
    by (simp add: OPTIONS_ParseOptions_def)
next
  case False
  with assms(1,2) check_loop_unknown [OF assms(3,4) False] show ?thesis
    by (simp add: OPTIONS_ParseOptions_def OPTIONS_Usage_def)
qed

theorem unknown_option_exit_code_witness:
  "OPTIONS_ParseOptions ext_return (Some ''--dll foo'') ''wine''
      [''app.exe'', ''-managed'', ''-x'', ''--'', ''-y''] proc0 =
     Inl (0, MESSAGE Msg_usage
               (MESSAGE (Msg_unknown_option ''-x'')
                  (proc0\<lparr>managed := True, inherit_str := Some ''--dll foo'',
                         calls := [(MODULE_AddLoadOrderOption, ''foo''), (do_managed_fn, [])],
                         env_WINEOPTIONS := Some ''--dll foo''\<rparr>)))
   \<and> OPTIONS_ParseOptions ext_return None ''wine''
      [''app.exe'', ''-managed'', ''--'', ''-y'', ''--''] proc0 =
     Inr (proc0\<lparr>managed := True, calls := [(do_managed_fn, [])], env_WINEOPTIONS := None,
                app_argv := [''wine'', ''app.exe'', ''-y'', ''--''], app_argc := 4\<rparr>)"
proof -
  have r: "replay_WINEOPTIONS ext_return (Some ''--dll foo'') proc0 =
      Inr (proc0\<lparr>inherit_str := Some ''--dll foo'', calls := [(MODULE_AddLoadOrderOption, ''foo'')]\<rparr>)"
    by code_simp
  have p: "parse_options ext_return [''app.exe'', ''-managed'', ''-x'', ''--'', ''-y'']
       (proc0\<lparr>inherit_str := Some ''--dll foo'', calls := [(MODULE_AddLoadOrderOption, ''foo'')]\<rparr>) =
      Inr ([''app.exe''] @ ''-x'' # [''--'', ''-y''],
           proc0\<lparr>managed := True, inherit_str := Some ''--dll foo'',
                 calls := [(MODULE_AddLoadOrderOption, ''foo''), (do_managed_fn, [])]\<rparr>)"
    by code_simp
  have r2: "replay_WINEOPTIONS ext_return None proc0 = Inr proc0"
    by (simp add: replay_WINEOPTIONS_def)
  have p2: "parse_options ext_return [''app.exe'', ''-managed'', ''--'', ''-y'', ''--''] proc0 =
      Inr ([''app.exe''] @ ''--'' # [''-y'', ''--''],
           proc0\<lparr>managed := True, calls := [(do_managed_fn, [])]\<rparr>)"
    by code_simp
  have l: "list_all (\<lambda>x. take 1 x \<noteq> ''-'') [''app.exe'']" "take 1 ''-x'' = ''-''"
    "take 1 ''--'' = ''-''"
    by simp_all
  from unknown_option_exit_code [OF r p l(1,2), of "''wine''"]
    unknown_option_exit_code [OF r2 p2 l(1,3), of "''wine''"]
  show ?thesis by (simp add: proc0_def)
qed

text \<open>
  C2, as the specification has it, fails: with \<open>-x\<close> left over the exit code is 0,
  not 1, and when \<open>-x\<close> stands after the separator \<open>--\<close> the process does not end
  at all, the token goes to the application.
\<close>

theorem unknown_option_exit_code_counterexample:
  "OPTIONS_ParseOptions ext_return None ''wine'' [''-x''] proc0 =
     Inl (0, proc0\<lparr>messages := [Msg_unknown_option ''-x'', Msg_usage]\<rparr>)
   \<and> OPTIONS_ParseOptions ext_return None ''wine'' [''--'', ''-x''] proc0 =
     Inr (proc0\<lparr>app_argv := [''wine'', ''-x''], app_argc := 2\<rparr>)"
  by code_simp

subsection \<open>The inheritance buffer during a replay\<close>

lemma inheritable_table:
  "opt \<in> set option_table \<Longrightarrow> inheritable (func opt) = inherit opt"
  by (auto simp: inheritable_def option_table_def)

lemma handle_match_effect:
  assumes "handle_match ext opt e argv i st = Inr (argv', st')" and "i < length argv"
  shows "\<exists>v. calls st' = calls st @ [(func opt, v)] \<and> messages st' = messages st \<and>
     inherit_str st' =
       (if inherit opt
        then Some ((case inherit_str st of Some s \<Rightarrow> s @ '' '' | None \<Rightarrow> []) @
               join_tokens (take (if e = None \<and> has_arg opt \<and> i + 1 < length argv then 2 else 1)
                             (drop i argv)))
        else inherit_str st)"
proof -
  have d: "drop i argv = argv ! i # drop (i + 1) argv"
    using assms(2) by (simp add: Cons_nth_drop_Suc)
  have d2: "drop i argv = argv ! i # argv ! (i + 1) # drop (i + 2) argv" if "i + 1 < length argv"
    using that d by (simp add: Cons_nth_drop_Suc)
  have c: "\<exists>v. calls st' = calls st @ [(func opt, v)] \<and> messages st' = messages st \<and>
     inherit_str st' =
       (if inherit opt
        then Some (join_loop argv i n 0 (case inherit_str st of Some s \<Rightarrow> s @ '' '' | None \<Rightarrow> []))
        else inherit_str st)"
    if "consume ext opt v n argv i st = Inr (argv', st')" for v n
  proof -
    from that obtain st0 where c0: "call_func ext (func opt) v st = Inr st0"
      and r: "remove_options argv i n (inherit opt) st0 = (argv', st')"
      by (auto simp: consume_def split: sum.splits)
    from call_func_frame [OF c0] r show ?thesis
      by (auto simp: remove_options_def)
  qed
  show ?thesis
  proof (cases e)
    case (Some v)
    with assms(1) have "consume ext opt v 1 argv i st = Inr (argv', st')"
      by (simp add: handle_match_def)
    from c [OF this] Some d show ?thesis by (auto simp: join_loop_1)
  next
    case None
    show ?thesis
    proof (cases "has_arg opt \<and> i + 1 < length argv")
      case True
      with assms(1) None have "consume ext opt (argv ! (i + 1)) 2 argv i st = Inr (argv', st')"
        by (simp add: handle_match_def)
      from c [OF this] None True d2 show ?thesis by (auto simp: join_loop_2)
    next
      case False
      with assms(1) None have "consume ext opt [] 1 argv i st = Inr (argv', st')"
        by (auto simp: handle_match_def)
      from c [OF this] None False d show ?thesis by (auto simp: join_loop_1)
    qed
  qed
qed

lemma parse_loop_buffer:
  "parse_loop ext argv i st = Inr (argv', st') \<Longrightarrow>
     \<exists>d. calls st' = calls st @ d \<and>
       (if list_ex (\<lambda>c. inheritable (fst c)) d
        then inherit_size st < inherit_size st'
        else inherit_str st' = inherit_str st)"
proof (induction ext argv i st rule: parse_loop.induct)
  case (1 ext argv i st)
  show ?case
  proof (cases "length argv \<le> i")
    case True
    with "1.prems" show ?thesis by (simp add: parse_loop_end)
  next
    case False
    then have lt: "i < length argv" by simp
    show ?thesis
    proof (cases "match_token (argv ! i)")
      case Skip
      with "1.prems" lt have "parse_loop ext argv (i + 1) st = Inr (argv', st')"
        by (simp add: parse_loop_Skip)
      from "1.IH"(1) [OF False Skip this] show ?thesis .
    next
      case Separator
      with "1.prems" lt show ?thesis by (simp add: parse_loop_Separator)
    next
      case (Found opt e)
      with "1.prems" lt obtain argv1 st1 where
        h: "handle_match ext opt e argv i st = Inr (argv1, st1)" and
        p: "parse_loop ext argv1 i st1 = Inr (argv', st')"
        by (auto simp: parse_loop_Found split: sum.splits)
      from handle_match_effect [OF h lt] obtain v where
        c1: "calls st1 = calls st @ [(func opt, v)]" and
        b1: "inherit_str st1 =
          (if inherit opt
           then Some ((case inherit_str st of Some s \<Rightarrow> s @ '' '' | None \<Rightarrow> []) @
               join_tokens (take (if e = None \<and> has_arg opt \<and> i + 1 < length argv then 2 else 1)
                             (drop i argv)))
           else inherit_str st)"
        by blast
      from "1.IH"(2) [OF False Found h refl p] obtain d where
        c2: "calls st' = calls st1 @ d" and
        b2: "if list_ex (\<lambda>c. inheritable (fst c)) d
             then inherit_size st1 < inherit_size st'
             else inherit_str st' = inherit_str st1"
        by blast
      have i: "inheritable (func opt) = inherit opt"
        by (rule inheritable_table [OF match_token_mem [OF Found]])
      have g: "inherit_size st < inherit_size st1"
        if "inherit opt"
        using that b1 by (cases "inherit_str st") (auto simp: inherit_size_def)
      have m: "inherit_size st1 \<le> inherit_size st'"
        using b2 by (auto simp: inherit_size_def split: if_splits)
      have "calls st' = calls st @ (func opt, v) # d" using c1 c2 by simp
      moreover have "if list_ex (\<lambda>c. inheritable (fst c)) ((func opt, v) # d)
        then inherit_size st < inherit_size st'
        else inherit_str st' = inherit_str st"
      proof (cases "inherit opt")
        case True
        with g m i show ?thesis by (auto split: if_splits)
      next
        case False
        with b1 have "inherit_str st1 = inherit_str st" "inherit_size st1 = inherit_size st"
          by (simp_all add: inherit_size_def)
        with b2 i False show ?thesis by (auto split: if_splits)
      qed
      ultimately show ?thesis by blast
    qed
  qed
qed




subsection \<open>The round trip through the inheritance buffer\<close>

lemma strtok_token:
  assumes "t \<noteq> []" and "CHR '' '' \<notin> set t" and "CHR 0x09 \<notin> set t"
  shows "strtok (t @ CHR '' '' # rest) [CHR '' '', CHR 0x09] = Some (t, rest)"
    and "strtok t [CHR '' '', CHR 0x09] = Some (t, [])"
proof -
  let ?ws = "[CHR '' '', CHR 0x09]"
  obtain c cs where t: "t = c # cs" using assms(1) by (cases t) auto
  with assms(2,3) have c: "c \<notin> set ?ws" by auto
  have a: "\<forall>x\<in>set t. x \<notin> set ?ws" using assms(2,3) by auto
  have d1: "dropWhile (\<lambda>c. c \<in> set ?ws) (t @ CHR '' '' # rest) = t @ CHR '' '' # rest"
    and d2: "dropWhile (\<lambda>c. c \<in> set ?ws) t = t"
    using c unfolding t by simp_all
  have t1: "takeWhile (\<lambda>c. c \<notin> set ?ws) (t @ CHR '' '' # rest) = t"
    using a by (simp add: takeWhile_append2)
  have t2: "takeWhile (\<lambda>c. c \<notin> set ?ws) t = t" using a by (simp add: takeWhile_eq_all_conv)
  have e1: "dropWhile (\<lambda>c. c \<notin> set ?ws) (t @ CHR '' '' # rest) = CHR '' '' # rest"
    using a by (simp add: dropWhile_append2)
  have e2: "dropWhile (\<lambda>c. c \<notin> set ?ws) t = []" using a by (simp add: dropWhile_eq_Nil_conv)
  show "strtok (t @ CHR '' '' # rest) ?ws = Some (t, rest)"
    unfolding strtok_def Let_def d1 t1 e1 using assms(1) by simp
  show "strtok t ?ws = Some (t, [])"
    unfolding strtok_def Let_def d2 t2 e2 using assms(1) by simp
qed

lemma token_loop_None: "token_loop n None = []"
  by (subst token_loop.simps) simp

lemma token_loop_Some:
  "n < 255 \<Longrightarrow> token_loop n (Some (p, buf)) = p # token_loop (n + 1) (strtok buf [CHR '' '', CHR 0x09])"
  by (subst token_loop.simps) simp

lemma strtok_Nil: "strtok [] delim = None"
  by (simp add: strtok_def)

lemma token_loop_join:
  "list_all (\<lambda>t. t \<noteq> [] \<and> CHR '' '' \<notin> set t \<and> CHR 0x09 \<notin> set t) (t # ts) \<Longrightarrow>
   n + length (t # ts) \<le> 255 \<Longrightarrow>
   token_loop n (strtok (join_tokens (t # ts)) [CHR '' '', CHR 0x09]) = t # ts"
proof (induction ts arbitrary: t n)
  case Nil
  then show ?case
    by (simp add: strtok_token(2) token_loop_Some strtok_Nil token_loop_None)
next
  case (Cons u ts)
  from Cons.prems(1) have w: "t \<noteq> []" "CHR '' '' \<notin> set t" "CHR 0x09 \<notin> set t" by simp_all
  have j: "join_tokens (t # u # ts) = t @ CHR '' '' # join_tokens (u # ts)" by simp
  have "token_loop n (strtok (join_tokens (t # u # ts)) [CHR '' '', CHR 0x09]) =
        t # token_loop (n + 1) (strtok (join_tokens (u # ts)) [CHR '' '', CHR 0x09])"
    unfolding j strtok_token(1) [OF w] using Cons.prems(2) by (simp add: token_loop_Some)
  also have "token_loop (n + 1) (strtok (join_tokens (u # ts)) [CHR '' '', CHR 0x09]) = u # ts"
    using Cons.prems by (intro Cons.IH) simp_all
  finally show ?case .
qed

lemma join_tokens_append:
  "xs \<noteq> [] \<Longrightarrow> ys \<noteq> [] \<Longrightarrow> join_tokens (xs @ ys) = join_tokens xs @ '' '' @ join_tokens ys"
proof (induction xs rule: join_tokens.induct)
  case 1
  then show ?case by simp
next
  case (2 t)
  then show ?case by (cases ys) simp_all
next
  case (3 t u ts)
  then show ?case by simp
qed

lemma parse_loop_buffer_exact:
  "parse_loop ext argv i st = Inr ([], st') \<Longrightarrow> i = 0 \<Longrightarrow> argv \<noteq> [] \<Longrightarrow>
   list_all (\<lambda>c. inheritable (fst c)) (drop (length (calls st)) (calls st')) \<Longrightarrow>
   inherit_str st' =
     Some ((case inherit_str st of Some s \<Rightarrow> s @ '' '' | None \<Rightarrow> []) @ join_tokens argv)"
proof (induction ext argv i st rule: parse_loop.induct)
  case (1 ext argv i st)
  from "1.prems"(2,3) have lt: "i < length argv" and nle: "\<not> length argv \<le> i" by simp_all
  from parse_loop_unconsumed [OF "1.prems"(1)]
  have u: "take i argv @ spec_unconsumed (drop i argv) = []" by simp
  have d: "drop i argv = argv ! i # drop (i + 1) argv"
    using lt by (simp add: Cons_nth_drop_Suc)
  show ?case
  proof (cases "match_token (argv ! i)")
    case Skip
    with u d show ?thesis by simp
  next
    case Separator
    with u d show ?thesis by simp
  next
    case (Found opt e)
    with "1.prems"(1) lt obtain argv1 st1 where
      h: "handle_match ext opt e argv i st = Inr (argv1, st1)" and
      p: "parse_loop ext argv1 i st1 = Inr ([], st')"
      by (auto simp: parse_loop_Found split: sum.splits)
    let ?c = "if e = None \<and> has_arg opt \<and> i + 1 < length argv then 2 else 1 :: nat"
    let ?pre = "case inherit_str st of Some s \<Rightarrow> s @ '' '' | None \<Rightarrow> []"
    from handle_match_effect [OF h lt] obtain v where
      c1: "calls st1 = calls st @ [(func opt, v)]" and
      b1: "inherit_str st1 =
        (if inherit opt then Some (?pre @ join_tokens (take ?c (drop i argv)))
         else inherit_str st)"
      by blast
    from parse_loop_buffer [OF p] obtain dd where c2: "calls st' = calls st1 @ dd" by blast
    from c1 c2 have dr: "drop (length (calls st)) (calls st') = (func opt, v) # dd"
      and dr1: "drop (length (calls st1)) (calls st') = dd" by simp_all
    from "1.prems"(4) dr have "inheritable (func opt)" and la: "list_all (\<lambda>c. inheritable (fst c)) dd"
      by simp_all
    then have inh: "inherit opt"
      using inheritable_table [OF match_token_mem [OF Found]] by simp
    have a1: "argv1 = drop ?c argv"
      using handle_match_argv [OF h] "1.prems"(2) by simp
    have b1': "inherit_str st1 = Some (?pre @ join_tokens (take ?c argv))"
      using b1 inh "1.prems"(2) by simp
    show ?thesis
    proof (cases "argv1 = []")
      case True
      with p "1.prems"(2) have "st' = st1" by (simp add: parse_loop_end)
      moreover from True a1 have "take ?c argv = argv" by simp
      ultimately show ?thesis using b1' by simp
    next
      case False
      have "inherit_str st' =
          Some ((case inherit_str st1 of Some s \<Rightarrow> s @ '' '' | None \<Rightarrow> []) @ join_tokens argv1)"
        using "1.IH"(2) [OF nle Found h refl p "1.prems"(2) False] la dr1 by simp
      also have "\<dots> = Some (?pre @ join_tokens (take ?c argv) @ '' '' @ join_tokens (drop ?c argv))"
        unfolding b1' a1 by simp
      also have "join_tokens (take ?c argv) @ '' '' @ join_tokens (drop ?c argv) =
          join_tokens (take ?c argv @ drop ?c argv)"
        using False a1 "1.prems"(3) by (intro join_tokens_append [symmetric]) auto
      finally show ?thesis by simp
    qed
  qed
qed

lemma do_directive_isl: "isl (do_directive opt st) = isl (do_directive opt r)"
  by (simp add: do_directive_def split: option.splits prod.splits)

lemma debugmsg_loop_indep:
  "debugmsg_loop opt buf st = Inr st' \<Longrightarrow> \<exists>r'. debugmsg_loop opt buf r = Inr r'"
proof (induction opt buf st arbitrary: r rule: debugmsg_loop.induct)
  case (1 opt buf st)
  from "1.prems" obtain st1 where d: "do_directive opt st = Inr st1"
    by (subst (asm) debugmsg_loop.simps) (auto split: sum.splits)
  with do_directive_isl [of opt st r] obtain r1 where dr: "do_directive opt r = Inr r1"
    by (cases "do_directive opt r") auto
  show ?case
  proof (cases "strtok buf '',''")
    case None
    with dr show ?thesis by (subst debugmsg_loop.simps) simp
  next
    case (Some a)
    obtain opt' buf' where a: "a = (opt', buf')" by (cases a)
    with "1.prems" d Some have "debugmsg_loop opt' buf' st1 = Inr st'"
      by (subst (asm) debugmsg_loop.simps) simp
    from "1.IH" [OF d Some a [symmetric] this, of r1] obtain r' where
      "debugmsg_loop opt' buf' r1 = Inr r'" by blast
    with dr Some a show ?thesis by (subst debugmsg_loop.simps) simp
  qed
qed

lemma do_debugmsg_indep:
  "do_debugmsg arg st = Inr st' \<Longrightarrow> \<exists>r'. do_debugmsg arg r = Inr r'"
  by (cases "strtok arg '',''") (auto simp: do_debugmsg_def dest: debugmsg_loop_indep)

lemma call_func_indep:
  assumes "call_func ext h v st = Inr st'"
  shows "\<exists>r'. call_func ext h v r = Inr r'"
proof (cases "h = do_debugmsg_fn")
  case True
  with assms show ?thesis
    by (auto simp: call_func_def Let_def dest: do_debugmsg_indep)
next
  case False
  with assms show ?thesis
    by (cases h)
       (auto simp: call_func_def Let_def do_help_def do_version_def do_managed_def
          call_extern_def split: option.splits)
qed

lemma handle_match_indep:
  assumes "handle_match ext opt e argv i st = Inr (argv', st')"
  shows "\<exists>r'. handle_match ext opt e argv i r = Inr (argv', r')"
proof -
  have c: "\<exists>r'. consume ext opt v n argv i r = Inr (argv', r')"
    if "consume ext opt v n argv i st = Inr (argv', st')" for v n
  proof -
    from that obtain st0 where c0: "call_func ext (func opt) v st = Inr st0"
      and a: "argv' = shift_loop argv i n"
      by (auto simp: consume_def remove_options_def split: sum.splits)
    from call_func_indep [OF c0, of r] obtain r0 where "call_func ext (func opt) v r = Inr r0"
      by blast
    with a show ?thesis by (simp add: consume_def remove_options_def)
  qed
  show ?thesis
    using assms c unfolding handle_match_def
    by (cases e; cases "has_arg opt \<and> i + 1 < length argv") auto
qed

lemma handle_match_calls:
  assumes "handle_match ext opt e argv i st = Inr (argv', st')"
  shows "calls st' = calls st @
    [(func opt, case e of Some v \<Rightarrow> v
                | None \<Rightarrow> if has_arg opt \<and> i + 1 < length argv then argv ! (i + 1) else [])]"
proof -
  have c: "calls st' = calls st @ [(func opt, v)]"
    if "consume ext opt v n argv i st = Inr (argv', st')" for v n
  proof -
    from that obtain st0 where c0: "call_func ext (func opt) v st = Inr st0"
      and r: "remove_options argv i n (inherit opt) st0 = (argv', st')"
      by (auto simp: consume_def split: sum.splits)
    from call_func_frame [OF c0] r show ?thesis by (auto simp: remove_options_def)
  qed
  show ?thesis
    using assms c unfolding handle_match_def
    by (cases e; cases "has_arg opt \<and> i + 1 < length argv") auto
qed

lemma parse_loop_indep:
  "parse_loop ext argv i st = Inr (argv', st') \<Longrightarrow>
     \<exists>r'. parse_loop ext argv i r = Inr (argv', r') \<and>
       drop (length (calls r)) (calls r') = drop (length (calls st)) (calls st')"
proof (induction ext argv i st arbitrary: r rule: parse_loop.induct)
  case (1 ext argv i st)
  show ?case
  proof (cases "length argv \<le> i")
    case True
    with "1.prems" show ?thesis by (simp add: parse_loop_end)
  next
    case False
    then have lt: "i < length argv" by simp
    show ?thesis
    proof (cases "match_token (argv ! i)")
      case Skip
      with "1.prems" lt have "parse_loop ext argv (i + 1) st = Inr (argv', st')"
        by (simp add: parse_loop_Skip)
      from "1.IH"(1) [OF False Skip this, of r] Skip lt show ?thesis
        by (simp add: parse_loop_Skip)
    next
      case Separator
      with "1.prems" lt show ?thesis by (simp add: parse_loop_Separator)
    next
      case (Found opt e)
      with "1.prems" lt obtain argv1 st1 where
        h: "handle_match ext opt e argv i st = Inr (argv1, st1)" and
        p: "parse_loop ext argv1 i st1 = Inr (argv', st')"
        by (auto simp: parse_loop_Found split: sum.splits)
      from handle_match_indep [OF h, of r] obtain r1 where
        hr: "handle_match ext opt e argv i r = Inr (argv1, r1)" by blast
      from "1.IH"(2) [OF False Found h refl p, of r1] obtain r' where
        pr: "parse_loop ext argv1 i r1 = Inr (argv', r')" and
        e: "drop (length (calls r1)) (calls r') = drop (length (calls st1)) (calls st')"
        by blast
      from parse_loop_buffer [OF p] obtain d1 where d1: "calls st' = calls st1 @ d1" by blast
      from parse_loop_buffer [OF pr] obtain d2 where d2: "calls r' = calls r1 @ d2" by blast
      from e d1 d2 have "d1 = d2" by simp
      with d1 d2 handle_match_calls [OF h] handle_match_calls [OF hr]
      have "drop (length (calls r)) (calls r') = drop (length (calls st)) (calls st')" by simp
      moreover have "parse_loop ext argv i r = Inr (argv', r')"
        using lt Found hr pr by (simp add: parse_loop_Found)
      ultimately show ?thesis by blast
    qed
  qed
qed

text \<open>
  C1, as the code has it. Take an array of at most 255 tokens, none of them empty
  and none with a space or a tab, that a scan from an empty \<open>inherit_str\<close> consumes
  whole, calling only handlers of inheritable options. Then \<open>inherit_str\<close> holds
  the tokens joined by single spaces, and \<open>inherit_options\<close> on this string, in
  any state \<open>r\<close>, returns (no token is left over) after the same handler calls
  with the same values in the same order.
\<close>

theorem inheritance_round_trip:
  assumes "list_all (\<lambda>t. t \<noteq> [] \<and> CHR '' '' \<notin> set t \<and> CHR 0x09 \<notin> set t) argv"
    and "argv \<noteq> []" and "length argv \<le> 255"
    and "inherit_str st = None"
    and "parse_options ext argv st = Inr ([], st')"
    and "list_all (\<lambda>c. inheritable (fst c)) (drop (length (calls st)) (calls st'))"
  shows "inherit_str st' = Some (join_tokens argv) \<and>
     (\<exists>r'. inherit_options ext (join_tokens argv) r = Inr r' \<and>
        drop (length (calls r)) (calls r') = drop (length (calls st)) (calls st'))"
proof -
  from assms(5) have p: "parse_loop ext argv 0 st = Inr ([], st')"
    by (simp add: parse_options_def)
  from parse_loop_buffer_exact [OF p refl assms(2,6)] assms(4)
  have b: "inherit_str st' = Some (join_tokens argv)" by simp
  obtain t ts where a: "argv = t # ts" using assms(2) by (cases argv) auto
  have tk: "token_loop 0 (strtok (join_tokens argv) [CHR '' '', CHR 0x09]) = argv"
    unfolding a using assms(1,3) unfolding a by (intro token_loop_join) simp_all
  from parse_loop_indep [OF p, of r] obtain r' where
    pr: "parse_loop ext argv 0 r = Inr ([], r')" and
    e: "drop (length (calls r)) (calls r') = drop (length (calls st)) (calls st')"
    by blast
  from pr tk have "inherit_options ext (join_tokens argv) r = Inr r'"
    by (simp add: inherit_options_def parse_options_def)
  with b e show ?thesis by blast
qed

theorem inheritance_round_trip_witness:
  "parse_options ext_return
      [''--dll'', ''foo'', ''--winver=win95'', ''-debugmsg'', ''+relay=user32,warn-heap''] proc0 =
     Inr ([], proc0\<lparr>inherit_str := Some ''--dll foo --winver=win95 -debugmsg +relay=user32,warn-heap'',
                     debug_relay_includelist := Some [Some ''USER32'', None],
                     dbg_options := [(''relay'', 255, 0), (''heap'', 0, 4)],
                     calls := [(MODULE_AddLoadOrderOption, ''foo''),
                               (VERSION_ParseWinVersion, ''win95''),
                               (do_debugmsg_fn, ''+relay=user32,warn-heap'')]\<rparr>)
   \<and> (\<exists>r'. inherit_options ext_return
               ''--dll foo --winver=win95 -debugmsg +relay=user32,warn-heap'' proc0 = Inr r' \<and>
            calls r' = [(MODULE_AddLoadOrderOption, ''foo''),
                        (VERSION_ParseWinVersion, ''win95''),
                        (do_debugmsg_fn, ''+relay=user32,warn-heap'')])"
proof -
  let ?argv = "[''--dll'', ''foo'', ''--winver=win95'', ''-debugmsg'', ''+relay=user32,warn-heap'']"
  let ?st = "proc0\<lparr>inherit_str := Some ''--dll foo --winver=win95 -debugmsg +relay=user32,warn-heap'',
                     debug_relay_includelist := Some [Some ''USER32'', None],
                     dbg_options := [(''relay'', 255, 0), (''heap'', 0, 4)],
                     calls := [(MODULE_AddLoadOrderOption, ''foo''),
                               (VERSION_ParseWinVersion, ''win95''),
                               (do_debugmsg_fn, ''+relay=user32,warn-heap'')]\<rparr>"
  have e: "parse_options ext_return ?argv proc0 = Inr ([], ?st)" by code_simp
  have h1: "list_all (\<lambda>t. t \<noteq> [] \<and> CHR '' '' \<notin> set t \<and> CHR 0x09 \<notin> set t) ?argv" by simp
  have h2: "?argv \<noteq> []" and h3: "length ?argv \<le> 255" by simp_all
  have h4: "inherit_str proc0 = None" by (simp add: proc0_def)
  have h6: "list_all (\<lambda>c. inheritable (fst c)) (drop (length (calls proc0)) (calls ?st))"
    by (simp add: proc0_def inheritable_def option_table_def)
  have j: "join_tokens ?argv = ''--dll foo --winver=win95 -debugmsg +relay=user32,warn-heap''"
    by simp
  from inheritance_round_trip [OF h1 h2 h3 h4 e h6, of proc0] e show ?thesis
    unfolding j by (simp add: proc0_def)
qed

text \<open>
  C1, as the specification has it, fails on a value with a space: the scan of
  \<open>--dll\<close> with the value \<open>a b\<close> calls the handler with \<open>a b\<close> and folds
  \<open>--dll a b\<close>; the replay of this string calls the handler with \<open>a\<close>, finds
  \<open>b\<close> left over and ends the process in \<open>OPTIONS_Usage\<close>.
\<close>

theorem inheritance_round_trip_counterexample:
  "parse_options ext_return [''--dll'', ''a b''] proc0 =
     Inr ([], proc0\<lparr>inherit_str := Some ''--dll a b'',
                     calls := [(MODULE_AddLoadOrderOption, ''a b'')]\<rparr>)
   \<and> inherit_options ext_return ''--dll a b'' proc0 =
     Inl (0, proc0\<lparr>inherit_str := Some ''--dll a'',
                     calls := [(MODULE_AddLoadOrderOption, ''a'')],
                     messages := [Msg_unknown_option_env ''b'', Msg_usage]\<rparr>)"
  by code_simp

end
